theory Spec2Isabelle
  imports Complex_Main "HOL-Library.Monad_Syntax"
begin

unbundle bit_operations_syntax

section \<open>Conventions of the embedding\<close>

text \<open>
  The phase vocoder of \<^verbatim>\<open>phasevocmodule.c\<close> is embedded as follows.
  \<^item> \<^verbatim>\<open>MYFLT\<close> samples are modelled as real numbers: the arithmetic of the
    source is read as exact arithmetic, with \<open>sqrt\<close>, \<open>cos\<close>, \<open>sin\<close> and
    \<open>powr\<close> for the calls into the C maths library.
  \<^item> A C \<^verbatim>\<open>int\<close> is a HOL integer. Where the source can overflow (the doubling
    loop of the power-of-two snap, the decrement inside \<^verbatim>\<open>isPowerOfTwo\<close>) the
    32-bit wrap-around is written out.
  \<^item> Every function returns an \<open>option\<close>. \<open>None\<close> stands for an execution
    that has no defined result in C: an array access outside the allocated block, an
    integer division by zero, a conversion to \<^verbatim>\<open>int\<close> of a value that does not fit,
    or a loop that never ends.
  \<^item> Arrays are lists whose length is the allocated length; \<open>rd\<close> and \<open>wr\<close>
    check every index.
  \<^item> The collaborators that are not part of this file of the program (the split
    real FFT and the window generator) are parameters of the functions that call them.
\<close>

type_synonym MYFLT = real

definition INT_MIN :: int where
  "INT_MIN = - (2 ^ 31)"

definition INT_MAX :: int where
  "INT_MAX = 2 ^ 31 - 1"

definition wrap_int :: "int \<Rightarrow> int" where
  "wrap_int x = signed_take_bit 31 x"

text \<open>Integer division and remainder of C: truncation towards zero, no result for a zero divisor.\<close>

definition c_div :: "int \<Rightarrow> int \<Rightarrow> int option" where
  "c_div a b =
     (if b = 0 \<or> (a = INT_MIN \<and> b = - 1) then None
      else Some (sgn a * sgn b * (\<bar>a\<bar> div \<bar>b\<bar>)))"

definition c_rem :: "int \<Rightarrow> int \<Rightarrow> int option" where
  "c_rem a b =
     (if b = 0 \<or> (a = INT_MIN \<and> b = - 1) then None
      else Some (a - b * (sgn a * sgn b * (\<bar>a\<bar> div \<bar>b\<bar>))))"

text \<open>The cast \<^verbatim>\<open>(int)x\<close> of a floating value: truncation towards zero, defined only
  when the truncated value fits an \<^verbatim>\<open>int\<close>.\<close>

definition int_of_MYFLT :: "MYFLT \<Rightarrow> int option" where
  "int_of_MYFLT x =
     (let t = (if 0 \<le> x then \<lfloor>x\<rfloor> else \<lceil>x\<rceil>)
      in if INT_MIN \<le> t \<and> t \<le> INT_MAX then Some t else None)"

definition rd :: "'a list \<Rightarrow> int \<Rightarrow> 'a option" where
  "rd xs i = (if 0 \<le> i \<and> i < int (length xs) then Some (xs ! nat i) else None)"

definition wr :: "'a list \<Rightarrow> int \<Rightarrow> 'a \<Rightarrow> 'a list option" where
  "wr xs i v = (if 0 \<le> i \<and> i < int (length xs) then Some (xs[nat i := v]) else None)"

definition rd2 :: "'a list list \<Rightarrow> int \<Rightarrow> int \<Rightarrow> 'a option" where
  "rd2 m i j = do { row \<leftarrow> rd m i; rd row j }"

definition wr2 :: "'a list list \<Rightarrow> int \<Rightarrow> int \<Rightarrow> 'a \<Rightarrow> 'a list list option" where
  "wr2 m i j v = do { row \<leftarrow> rd m i; row' \<leftarrow> wr row j v; wr m i row' }"

text \<open>The loop \<^verbatim>\<open>for (; k < hi; k++) body\<close>, started at \<open>k\<close>.\<close>

function for_loop :: "int \<Rightarrow> int \<Rightarrow> (int \<Rightarrow> 's \<Rightarrow> 's option) \<Rightarrow> 's \<Rightarrow> 's option" where
  "for_loop k hi body s =
     (if k < hi then do { s' \<leftarrow> body k s; for_loop (k + 1) hi body s' } else Some s)"
  by pat_completeness auto
termination
  by (relation "measure (\<lambda>(k, hi, body, s). nat (hi - k))") auto

declare for_loop.simps [simp del]

section \<open>Power-of-two snapping\<close>

definition isPowerOfTwo :: "int \<Rightarrow> bool" where
  "isPowerOfTwo x = (x \<noteq> 0 \<and> (x AND wrap_int (x - 1)) = 0)"

text \<open>\<^verbatim>\<open>k = 1; while (k < n) k *= 2;\<close> The loop is entered with \<open>k = 1\<close>; its result is
  the final \<open>k\<close>, and \<open>None\<close> when it never ends.\<close>

partial_function (option) next_pow2_loop :: "int \<Rightarrow> int \<Rightarrow> int option" where
  "next_pow2_loop k n = (if k < n then next_pow2_loop (wrap_int (k * 2)) n else Some k)"

datatype diagnostic = FFT_size_snapped int | FFT_olaps_snapped int

section \<open>The analyzer\<close>

record PVStream =
  pv_fftsize :: int
  pv_olaps :: int
  pv_magn :: "MYFLT list list"
  pv_freq :: "MYFLT list list"
  pv_count :: "int list"

record PVAnal =
  an_sr :: MYFLT
  an_bufsize :: int
  an_size :: int
  an_olaps :: int
  an_hsize :: int
  an_hopsize :: int
  an_wintype :: int
  an_incount :: int
  an_inputLatency :: int
  an_overcount :: int
  an_factor :: MYFLT
  an_scale :: MYFLT
  an_input_buffer :: "MYFLT list"
  an_inframe :: "MYFLT list"
  an_outframe :: "MYFLT list"
  an_real :: "MYFLT list"
  an_imag :: "MYFLT list"
  an_lastPhase :: "MYFLT list"
  an_window :: "MYFLT list"
  an_magn :: "MYFLT list list"
  an_freq :: "MYFLT list list"
  an_count :: "int list"

definition PI :: MYFLT where
  "PI = pi"

definition TWOPI :: MYFLT where
  "TWOPI = 2 * pi"

text \<open>A block of \<open>n\<close> cells set to \<open>v\<close> (\<^verbatim>\<open>realloc\<close> followed by the filling loop);
  a non-positive \<open>n\<close> gives the empty block.\<close>

definition alloc :: "int \<Rightarrow> 'a \<Rightarrow> 'a list" where
  "alloc n v = replicate (nat n) v"

text \<open>\<^verbatim>\<open>gen_window(window, size, wintype)\<close> fills the \<open>size\<close> cells of the window; the
  generator \<open>gw size wintype i\<close> gives the value of cell \<open>i\<close>.\<close>

definition gen_window :: "(int \<Rightarrow> int \<Rightarrow> nat \<Rightarrow> MYFLT) \<Rightarrow> int \<Rightarrow> int \<Rightarrow> MYFLT list" where
  "gen_window gw n wintype = map (gw n wintype) [0 ..< nat n]"

definition fill_count :: "int list \<Rightarrow> int \<Rightarrow> int \<Rightarrow> int list option" where
  "fill_count cnt bufsize v = for_loop 0 bufsize (\<lambda>i c. wr c i v) cnt"

definition PVAnal_realloc_memories ::
  "(int \<Rightarrow> int \<Rightarrow> nat \<Rightarrow> MYFLT) \<Rightarrow> PVAnal \<Rightarrow> PVAnal option" where
  "PVAnal_realloc_memories gw self = do {
     hsize \<leftarrow> c_div (an_size self) 2;
     hopsize \<leftarrow> c_div (an_size self) (an_olaps self);
     let inputLatency = an_size self - hopsize;
     let incount = inputLatency;
     cnt \<leftarrow> fill_count (an_count self) (an_bufsize self) incount;
     Some (self
       \<lparr> an_hsize := hsize,
         an_hopsize := hopsize,
         an_factor := an_sr self / (real_of_int hopsize * TWOPI),
         an_scale := TWOPI * real_of_int hopsize / real_of_int (an_size self),
         an_inputLatency := inputLatency,
         an_incount := incount,
         an_overcount := 0,
         an_input_buffer := alloc (an_size self) 0,
         an_inframe := alloc (an_size self) 0,
         an_outframe := alloc (an_size self) 0,
         an_lastPhase := alloc hsize 0,
         an_real := alloc hsize 0,
         an_imag := alloc hsize 0,
         an_magn := alloc (an_olaps self) (alloc hsize 0),
         an_freq := alloc (an_olaps self) (alloc hsize 0),
         an_window := gen_window gw (an_size self) (an_wintype self),
         an_count := cnt \<rparr>)
   }"

text \<open>What the analyzer publishes on its bus after \<^verbatim>\<open>PVStream_set...\<close>: the bus holds
  pointers to the analyzer's own tables, so a reader sees their current contents.\<close>

definition PVAnal_pv_stream :: "PVAnal \<Rightarrow> PVStream" where
  "PVAnal_pv_stream self =
     \<lparr> pv_fftsize = an_size self, pv_olaps = an_olaps self,
       pv_magn = an_magn self, pv_freq = an_freq self, pv_count = an_count self \<rparr>"

text \<open>The snap of \<^verbatim>\<open>PVAnal_new\<close>, \<^verbatim>\<open>PVAnal_setSize\<close> and \<^verbatim>\<open>PVAnal_setOverlaps\<close>:
  the value kept and whether the diagnostic is printed.\<close>

definition snap_pow2 :: "int \<Rightarrow> (int \<times> bool) option" where
  "snap_pow2 n =
     (if \<not> isPowerOfTwo n then do { k \<leftarrow> next_pow2_loop 1 n; Some (k, True) }
      else Some (n, False))"

text \<open>\<^verbatim>\<open>PVAnal_new\<close> with the keyword arguments already parsed; \<open>sr\<close> and \<open>bufsize\<close>
  come from the server (\<^verbatim>\<open>INIT_OBJECT_COMMON\<close>). Only \<open>size\<close> goes through the snap.\<close>

definition PVAnal_new ::
  "(int \<Rightarrow> int \<Rightarrow> nat \<Rightarrow> MYFLT) \<Rightarrow> MYFLT \<Rightarrow> int \<Rightarrow> int \<Rightarrow> int \<Rightarrow> int
     \<Rightarrow> (diagnostic list \<times> PVAnal) option" where
  "PVAnal_new gw sr bufsize size_arg olaps_arg wintype_arg = do {
     (sz, printed) \<leftarrow> snap_pow2 size_arg;
     let self = \<lparr> an_sr = sr, an_bufsize = bufsize, an_size = sz, an_olaps = olaps_arg,
                  an_hsize = 0, an_hopsize = 0, an_wintype = wintype_arg, an_incount = 0,
                  an_inputLatency = 0, an_overcount = 0, an_factor = 0, an_scale = 0,
                  an_input_buffer = [], an_inframe = [], an_outframe = [], an_real = [],
                  an_imag = [], an_lastPhase = [], an_window = [], an_magn = [],
                  an_freq = [], an_count = alloc bufsize 0 \<rparr>;
     self' \<leftarrow> PVAnal_realloc_memories gw self;
     Some ((if printed then [FFT_size_snapped sz] else []), self')
   }"

definition PVAnal_setSize ::
  "(int \<Rightarrow> int \<Rightarrow> nat \<Rightarrow> MYFLT) \<Rightarrow> PVAnal \<Rightarrow> int \<Rightarrow> (diagnostic list \<times> PVAnal) option" where
  "PVAnal_setSize gw self arg = do {
     (sz, printed) \<leftarrow> snap_pow2 arg;
     self' \<leftarrow> PVAnal_realloc_memories gw (self\<lparr>an_size := sz\<rparr>);
     Some ((if printed then [FFT_size_snapped sz] else []), self')
   }"

definition PVAnal_setOverlaps ::
  "(int \<Rightarrow> int \<Rightarrow> nat \<Rightarrow> MYFLT) \<Rightarrow> PVAnal \<Rightarrow> int \<Rightarrow> (diagnostic list \<times> PVAnal) option" where
  "PVAnal_setOverlaps gw self arg = do {
     (k, printed) \<leftarrow> snap_pow2 arg;
     self' \<leftarrow> PVAnal_realloc_memories gw (self\<lparr>an_olaps := k\<rparr>);
     Some ((if printed then [FFT_olaps_snapped k] else []), self')
   }"


subsection \<open>Analysis of one block\<close>

text \<open>The C library's \<^verbatim>\<open>atan2(y, x)\<close> on the reals; at the origin it returns 0.\<close>

definition MYATAN2 :: "MYFLT \<Rightarrow> MYFLT \<Rightarrow> MYFLT" where
  "MYATAN2 y x =
     (if 0 < x then arctan (y / x)
      else if x < 0 then (if 0 \<le> y then arctan (y / x) + pi else arctan (y / x) - pi)
      else if 0 < y then pi / 2
      else if y < 0 then - (pi / 2)
      else 0)"

text \<open>\<^verbatim>\<open>while (tmp > PI) tmp -= TWOPI;\<close>\<close>

function wrap_above :: "MYFLT \<Rightarrow> MYFLT" where
  "wrap_above tmp = (if tmp > PI then wrap_above (tmp - TWOPI) else tmp)"
  by pat_completeness auto
termination
proof (relation "measure (\<lambda>t. nat \<lceil>(t - PI) / TWOPI\<rceil>)")
  fix tmp :: MYFLT
  assume gt: "PI < tmp"
  have "(tmp - TWOPI - PI) / TWOPI = (tmp - PI) / TWOPI - 1"
    by (simp add: TWOPI_def field_simps)
  then have "\<lceil>(tmp - TWOPI - PI) / TWOPI\<rceil> = \<lceil>(tmp - PI) / TWOPI\<rceil> - 1"
    by simp
  moreover have "0 < (tmp - PI) / TWOPI"
    using gt by (simp add: TWOPI_def)
  then have "0 < \<lceil>(tmp - PI) / TWOPI\<rceil>"
    by simp
  ultimately show "(tmp - TWOPI, tmp) \<in> measure (\<lambda>t. nat \<lceil>(t - PI) / TWOPI\<rceil>)"
    by simp
qed simp

text \<open>\<^verbatim>\<open>while (tmp < -PI) tmp += TWOPI;\<close>\<close>

function wrap_below :: "MYFLT \<Rightarrow> MYFLT" where
  "wrap_below tmp = (if tmp < - PI then wrap_below (tmp + TWOPI) else tmp)"
  by pat_completeness auto
termination
proof (relation "measure (\<lambda>t. nat \<lceil>(- PI - t) / TWOPI\<rceil>)")
  fix tmp :: MYFLT
  assume lt: "tmp < - PI"
  have "(- PI - (tmp + TWOPI)) / TWOPI = (- PI - tmp) / TWOPI - 1"
    by (simp add: TWOPI_def field_simps)
  then have "\<lceil>(- PI - (tmp + TWOPI)) / TWOPI\<rceil> = \<lceil>(- PI - tmp) / TWOPI\<rceil> - 1"
    by simp
  moreover have "0 < (- PI - tmp) / TWOPI"
    using lt by (simp add: TWOPI_def)
  then have "0 < \<lceil>(- PI - tmp) / TWOPI\<rceil>"
    by simp
  ultimately show "(tmp + TWOPI, tmp) \<in> measure (\<lambda>t. nat \<lceil>(- PI - t) / TWOPI\<rceil>)"
    by simp
qed simp

declare wrap_above.simps [simp del] wrap_below.simps [simp del]

text \<open>The value stored in \<^verbatim>\<open>freq[overcount][k]\<close> for the unwrapped phase
  difference \<open>tmp\<close> (line 144).\<close>

definition PVAnal_freq :: "PVAnal \<Rightarrow> int \<Rightarrow> MYFLT \<Rightarrow> MYFLT" where
  "PVAnal_freq self k tmp = (tmp + real_of_int k * an_scale self) * an_factor self"

text \<open>One turn of the loop over the bins (lines 134 to 145).\<close>

definition PVAnal_bin :: "int \<Rightarrow> PVAnal \<Rightarrow> PVAnal option" where
  "PVAnal_bin k self = do {
     re \<leftarrow> rd (an_real self) k;
     im \<leftarrow> rd (an_imag self) k;
     let mag = sqrt (re * re + im * im);
     let phase = MYATAN2 im re;
     last \<leftarrow> rd (an_lastPhase self) k;
     let tmp = phase - last;
     lastPhase' \<leftarrow> wr (an_lastPhase self) k phase;
     let tmp = wrap_below (wrap_above tmp);
     magn' \<leftarrow> wr2 (an_magn self) (an_overcount self) k mag;
     freq' \<leftarrow> wr2 (an_freq self) (an_overcount self) k (PVAnal_freq self k tmp);
     Some (self\<lparr>an_lastPhase := lastPhase', an_magn := magn', an_freq := freq'\<rparr>)
   }"

definition PVAnal_window_step :: "int \<Rightarrow> int \<Rightarrow> PVAnal \<Rightarrow> PVAnal option" where
  "PVAnal_window_step md k self = do {
     x \<leftarrow> rd (an_input_buffer self) k;
     w \<leftarrow> rd (an_window self) k;
     j \<leftarrow> c_rem (k + md) (an_size self);
     inframe' \<leftarrow> wr (an_inframe self) j (x * w);
     Some (self\<lparr>an_inframe := inframe'\<rparr>)
   }"

definition PVAnal_unpack_step :: "int \<Rightarrow> PVAnal \<Rightarrow> PVAnal option" where
  "PVAnal_unpack_step k self = do {
     a \<leftarrow> rd (an_outframe self) k;
     real' \<leftarrow> wr (an_real self) k a;
     b \<leftarrow> rd (an_outframe self) (an_size self - k);
     imag' \<leftarrow> wr (an_imag self) k b;
     Some (self\<lparr>an_real := real', an_imag := imag'\<rparr>)
   }"

definition PVAnal_shift_step :: "int \<Rightarrow> PVAnal \<Rightarrow> PVAnal option" where
  "PVAnal_shift_step k self = do {
     x \<leftarrow> rd (an_input_buffer self) (k + an_hopsize self);
     input_buffer' \<leftarrow> wr (an_input_buffer self) k x;
     Some (self\<lparr>an_input_buffer := input_buffer'\<rparr>)
   }"

text \<open>A call of the split FFT (forward or inverse) fills the output frame; \<open>fft inp j\<close> is
  cell \<open>j\<close> of the transform of \<open>inp\<close>.\<close>

definition fft_call :: "(MYFLT list \<Rightarrow> nat \<Rightarrow> MYFLT) \<Rightarrow> MYFLT list \<Rightarrow> MYFLT list \<Rightarrow> MYFLT list" where
  "fft_call fft inp out = map (fft inp) [0 ..< length out]"

text \<open>The body of \<^verbatim>\<open>if (self->incount >= self->size)\<close> (lines 121 to 151).\<close>

definition PVAnal_frame :: "(MYFLT list \<Rightarrow> nat \<Rightarrow> MYFLT) \<Rightarrow> PVAnal \<Rightarrow> PVAnal option" where
  "PVAnal_frame fft self0 = do {
     let self = self0\<lparr>an_incount := an_inputLatency self0\<rparr>;
     let md = an_hopsize self * an_overcount self;
     self \<leftarrow> for_loop 0 (an_size self) (PVAnal_window_step md) self;
     let self = self\<lparr>an_outframe := fft_call fft (an_inframe self) (an_outframe self)\<rparr>;
     a \<leftarrow> rd (an_outframe self) 0;
     real' \<leftarrow> wr (an_real self) 0 a;
     imag' \<leftarrow> wr (an_imag self) 0 0;
     let self = self\<lparr>an_real := real', an_imag := imag'\<rparr>;
     self \<leftarrow> for_loop 1 (an_hsize self) PVAnal_unpack_step self;
     self \<leftarrow> for_loop 0 (an_hsize self) PVAnal_bin self;
     self \<leftarrow> for_loop 0 (an_inputLatency self) PVAnal_shift_step self;
     let oc = an_overcount self + 1;
     Some (self\<lparr>an_overcount := (if oc \<ge> an_olaps self then 0 else oc)\<rparr>)
   }"

text \<open>One turn of the loop over the samples of the block (lines 117 to 152).\<close>

definition PVAnal_sample ::
  "(MYFLT list \<Rightarrow> nat \<Rightarrow> MYFLT) \<Rightarrow> MYFLT list \<Rightarrow> int \<Rightarrow> PVAnal \<Rightarrow> PVAnal option" where
  "PVAnal_sample fft inp i self0 = do {
     x \<leftarrow> rd inp i;
     input_buffer' \<leftarrow> wr (an_input_buffer self0) (an_incount self0) x;
     count' \<leftarrow> wr (an_count self0) i (an_incount self0);
     let self = self0\<lparr>an_input_buffer := input_buffer', an_count := count',
                       an_incount := an_incount self0 + 1\<rparr>;
     if an_incount self \<ge> an_size self then PVAnal_frame fft self else Some self
   }"

definition PVAnal_process ::
  "(MYFLT list \<Rightarrow> nat \<Rightarrow> MYFLT) \<Rightarrow> MYFLT list \<Rightarrow> PVAnal \<Rightarrow> PVAnal option" where
  "PVAnal_process fft inp self = for_loop 0 (an_bufsize self) (PVAnal_sample fft inp) self"


section \<open>The synthesizer\<close>

record PVSynth =
  sy_sr :: MYFLT
  sy_bufsize :: int
  sy_data :: "MYFLT list"
  sy_size :: int
  sy_hsize :: int
  sy_olaps :: int
  sy_hopsize :: int
  sy_wintype :: int
  sy_inputLatency :: int
  sy_overcount :: int
  sy_ampscl :: MYFLT
  sy_factor :: MYFLT
  sy_scale :: MYFLT
  sy_output_buffer :: "MYFLT list"
  sy_outputAccum :: "MYFLT list"
  sy_inframe :: "MYFLT list"
  sy_outframe :: "MYFLT list"
  sy_real :: "MYFLT list"
  sy_imag :: "MYFLT list"
  sy_sumPhase :: "MYFLT list"
  sy_window :: "MYFLT list"

definition PVSynth_realloc_memories ::
  "(int \<Rightarrow> int \<Rightarrow> nat \<Rightarrow> MYFLT) \<Rightarrow> PVSynth \<Rightarrow> PVSynth option" where
  "PVSynth_realloc_memories gw self = do {
     hsize \<leftarrow> c_div (sy_size self) 2;
     hopsize \<leftarrow> c_div (sy_size self) (sy_olaps self);
     Some (self
       \<lparr> sy_hsize := hsize,
         sy_hopsize := hopsize,
         sy_factor := real_of_int hopsize * TWOPI / sy_sr self,
         sy_scale := sy_sr self / real_of_int (sy_size self),
         sy_inputLatency := sy_size self - hopsize,
         sy_overcount := 0,
         sy_ampscl := 1 / sqrt (real_of_int (sy_olaps self)),
         sy_output_buffer := alloc (sy_size self) 0,
         sy_inframe := alloc (sy_size self) 0,
         sy_outframe := alloc (sy_size self) 0,
         sy_sumPhase := alloc hsize 0,
         sy_real := alloc hsize 0,
         sy_imag := alloc hsize 0,
         sy_outputAccum := alloc (sy_size self + hopsize) 0,
         sy_window := gen_window gw (sy_size self) (sy_wintype self) \<rparr>)
   }"

text \<open>The phase advance added to \<^verbatim>\<open>sumPhase[k]\<close> for the frequency \<open>f\<close> read from the
  bus (line 464).\<close>

definition PVSynth_phase_inc :: "PVSynth \<Rightarrow> int \<Rightarrow> MYFLT \<Rightarrow> MYFLT" where
  "PVSynth_phase_inc self k f = (f - real_of_int k * sy_scale self) * sy_factor self"

text \<open>One turn of the loop over the bins (lines 461 to 469).\<close>

definition PVSynth_bin :: "PVStream \<Rightarrow> int \<Rightarrow> PVSynth \<Rightarrow> PVSynth option" where
  "PVSynth_bin inp k self = do {
     mag \<leftarrow> rd2 (pv_magn inp) (sy_overcount self) k;
     tmp \<leftarrow> rd2 (pv_freq inp) (sy_overcount self) k;
     let tmp = PVSynth_phase_inc self k tmp;
     old \<leftarrow> rd (sy_sumPhase self) k;
     sumPhase' \<leftarrow> wr (sy_sumPhase self) k (old + tmp);
     phase \<leftarrow> rd sumPhase' k;
     real' \<leftarrow> wr (sy_real self) k (mag * cos phase);
     imag' \<leftarrow> wr (sy_imag self) k (mag * sin phase);
     Some (self\<lparr>sy_sumPhase := sumPhase', sy_real := real', sy_imag := imag'\<rparr>)
   }"

definition PVSynth_pack_step :: "int \<Rightarrow> PVSynth \<Rightarrow> PVSynth option" where
  "PVSynth_pack_step k self = do {
     a \<leftarrow> rd (sy_real self) k;
     inframe' \<leftarrow> wr (sy_inframe self) k a;
     b \<leftarrow> rd (sy_imag self) k;
     inframe'' \<leftarrow> wr inframe' (sy_size self - k) b;
     Some (self\<lparr>sy_inframe := inframe''\<rparr>)
   }"

definition PVSynth_accum_step :: "int \<Rightarrow> int \<Rightarrow> PVSynth \<Rightarrow> PVSynth option" where
  "PVSynth_accum_step md k self = do {
     j \<leftarrow> c_rem (k + md) (sy_size self);
     x \<leftarrow> rd (sy_outframe self) j;
     w \<leftarrow> rd (sy_window self) k;
     old \<leftarrow> rd (sy_outputAccum self) k;
     outputAccum' \<leftarrow> wr (sy_outputAccum self) k (old + x * w * sy_ampscl self);
     Some (self\<lparr>sy_outputAccum := outputAccum'\<rparr>)
   }"

definition PVSynth_copy_step :: "int \<Rightarrow> PVSynth \<Rightarrow> PVSynth option" where
  "PVSynth_copy_step k self = do {
     x \<leftarrow> rd (sy_outputAccum self) k;
     output_buffer' \<leftarrow> wr (sy_output_buffer self) k x;
     Some (self\<lparr>sy_output_buffer := output_buffer'\<rparr>)
   }"

definition PVSynth_shift_step :: "int \<Rightarrow> PVSynth \<Rightarrow> PVSynth option" where
  "PVSynth_shift_step k self = do {
     x \<leftarrow> rd (sy_outputAccum self) (k + sy_hopsize self);
     outputAccum' \<leftarrow> wr (sy_outputAccum self) k x;
     Some (self\<lparr>sy_outputAccum := outputAccum'\<rparr>)
   }"

text \<open>The body of \<^verbatim>\<open>if (count[i] >= (self->size-1))\<close> (lines 461 to 490).\<close>

definition PVSynth_frame ::
  "(MYFLT list \<Rightarrow> nat \<Rightarrow> MYFLT) \<Rightarrow> PVStream \<Rightarrow> PVSynth \<Rightarrow> PVSynth option" where
  "PVSynth_frame ifft inp self0 = do {
     self \<leftarrow> for_loop 0 (sy_hsize self0) (PVSynth_bin inp) self0;
     a \<leftarrow> rd (sy_real self) 0;
     inframe' \<leftarrow> wr (sy_inframe self) 0 a;
     inframe'' \<leftarrow> wr inframe' (sy_hsize self) 0;
     let self = self\<lparr>sy_inframe := inframe''\<rparr>;
     self \<leftarrow> for_loop 1 (sy_hsize self) PVSynth_pack_step self;
     let self = self\<lparr>sy_outframe := fft_call ifft (sy_inframe self) (sy_outframe self)\<rparr>;
     let md = sy_hopsize self * sy_overcount self;
     self \<leftarrow> for_loop 0 (sy_size self) (PVSynth_accum_step md) self;
     self \<leftarrow> for_loop 0 (sy_hopsize self) PVSynth_copy_step self;
     self \<leftarrow> for_loop 0 (sy_size self) PVSynth_shift_step self;
     let oc = sy_overcount self + 1;
     Some (self\<lparr>sy_overcount := (if oc \<ge> sy_olaps self then 0 else oc)\<rparr>)
   }"

text \<open>One turn of the loop over the samples of the block (lines 459 to 491).\<close>

definition PVSynth_sample ::
  "(MYFLT list \<Rightarrow> nat \<Rightarrow> MYFLT) \<Rightarrow> PVStream \<Rightarrow> int \<Rightarrow> PVSynth \<Rightarrow> PVSynth option" where
  "PVSynth_sample ifft inp i self0 = do {
     c \<leftarrow> rd (pv_count inp) i;
     x \<leftarrow> rd (sy_output_buffer self0) (c - sy_inputLatency self0);
     data' \<leftarrow> wr (sy_data self0) i x;
     let self = self0\<lparr>sy_data := data'\<rparr>;
     if c \<ge> sy_size self - 1 then PVSynth_frame ifft inp self else Some self
   }"

text \<open>The reconfiguration at the start of a block (lines 452 to 456).\<close>

definition PVSynth_adapt ::
  "(int \<Rightarrow> int \<Rightarrow> nat \<Rightarrow> MYFLT) \<Rightarrow> PVStream \<Rightarrow> PVSynth \<Rightarrow> PVSynth option" where
  "PVSynth_adapt gw inp self =
     (if sy_size self \<noteq> pv_fftsize inp \<or> sy_olaps self \<noteq> pv_olaps inp
      then PVSynth_realloc_memories gw (self\<lparr>sy_size := pv_fftsize inp, sy_olaps := pv_olaps inp\<rparr>)
      else Some self)"

definition PVSynth_process ::
  "(int \<Rightarrow> int \<Rightarrow> nat \<Rightarrow> MYFLT) \<Rightarrow> (MYFLT list \<Rightarrow> nat \<Rightarrow> MYFLT) \<Rightarrow> PVStream \<Rightarrow> PVSynth
     \<Rightarrow> PVSynth option" where
  "PVSynth_process gw ifft inp self0 = do {
     self \<leftarrow> PVSynth_adapt gw inp self0;
     for_loop 0 (sy_bufsize self) (PVSynth_sample ifft inp) self
   }"


section \<open>The transposer\<close>

record PVTranspose =
  tr_bufsize :: int
  tr_transpo :: MYFLT
  tr_size :: int
  tr_olaps :: int
  tr_hsize :: int
  tr_hopsize :: int
  tr_overcount :: int
  tr_magn :: "MYFLT list list"
  tr_freq :: "MYFLT list list"
  tr_count :: "int list"

definition PVTranspose_realloc_memories :: "PVTranspose \<Rightarrow> PVTranspose option" where
  "PVTranspose_realloc_memories self = do {
     hsize \<leftarrow> c_div (tr_size self) 2;
     hopsize \<leftarrow> c_div (tr_size self) (tr_olaps self);
     let inputLatency = tr_size self - hopsize;
     cnt \<leftarrow> fill_count (tr_count self) (tr_bufsize self) inputLatency;
     Some (self
       \<lparr> tr_hsize := hsize,
         tr_hopsize := hopsize,
         tr_overcount := 0,
         tr_magn := alloc (tr_olaps self) (alloc hsize 0),
         tr_freq := alloc (tr_olaps self) (alloc hsize 0),
         tr_count := cnt \<rparr>)
   }"

definition PVTranspose_clear_step :: "int \<Rightarrow> PVTranspose \<Rightarrow> PVTranspose option" where
  "PVTranspose_clear_step k self = do {
     magn' \<leftarrow> wr2 (tr_magn self) (tr_overcount self) k 0;
     freq' \<leftarrow> wr2 (tr_freq self) (tr_overcount self) k 0;
     Some (self\<lparr>tr_magn := magn', tr_freq := freq'\<rparr>)
   }"

text \<open>One turn of the second loop over the bins (lines 884 to 890, and 923 to 929).\<close>

definition PVTranspose_bin :: "MYFLT \<Rightarrow> PVStream \<Rightarrow> int \<Rightarrow> PVTranspose \<Rightarrow> PVTranspose option" where
  "PVTranspose_bin transpo inp k self = do {
     index \<leftarrow> int_of_MYFLT (real_of_int k * transpo);
     if index < tr_hsize self then do {
       old \<leftarrow> rd2 (tr_magn self) (tr_overcount self) index;
       m \<leftarrow> rd2 (pv_magn inp) (tr_overcount self) k;
       magn' \<leftarrow> wr2 (tr_magn self) (tr_overcount self) index (old + m);
       f \<leftarrow> rd2 (pv_freq inp) (tr_overcount self) k;
       freq' \<leftarrow> wr2 (tr_freq self) (tr_overcount self) index (f * transpo);
       Some (self\<lparr>tr_magn := magn', tr_freq := freq'\<rparr>)
     } else Some self
   }"

text \<open>The work done at a frame edge, shared by both variants (lines 880 to 893).\<close>

definition PVTranspose_frame :: "MYFLT \<Rightarrow> PVStream \<Rightarrow> PVTranspose \<Rightarrow> PVTranspose option" where
  "PVTranspose_frame transpo inp self0 = do {
     self \<leftarrow> for_loop 0 (tr_hsize self0) PVTranspose_clear_step self0;
     self \<leftarrow> for_loop 0 (tr_hsize self) (PVTranspose_bin transpo inp) self;
     let oc = tr_overcount self + 1;
     Some (self\<lparr>tr_overcount := (if oc \<ge> tr_olaps self then 0 else oc)\<rparr>)
   }"

definition PVTranspose_adapt :: "PVStream \<Rightarrow> PVTranspose \<Rightarrow> PVTranspose option" where
  "PVTranspose_adapt inp self =
     (if tr_size self \<noteq> pv_fftsize inp \<or> tr_olaps self \<noteq> pv_olaps inp
      then PVTranspose_realloc_memories (self\<lparr>tr_size := pv_fftsize inp, tr_olaps := pv_olaps inp\<rparr>)
      else Some self)"

definition PVTranspose_sample_i :: "MYFLT \<Rightarrow> PVStream \<Rightarrow> int \<Rightarrow> PVTranspose \<Rightarrow> PVTranspose option" where
  "PVTranspose_sample_i transpo inp i self0 = do {
     c \<leftarrow> rd (pv_count inp) i;
     count' \<leftarrow> wr (tr_count self0) i c;
     let self = self0\<lparr>tr_count := count'\<rparr>;
     if c \<ge> tr_size self - 1 then PVTranspose_frame transpo inp self else Some self
   }"

definition PVTranspose_process_i :: "PVStream \<Rightarrow> PVTranspose \<Rightarrow> PVTranspose option" where
  "PVTranspose_process_i inp self0 = do {
     let transpo = tr_transpo self0;
     self \<leftarrow> PVTranspose_adapt inp self0;
     for_loop 0 (tr_bufsize self) (PVTranspose_sample_i transpo inp) self
   }"

definition PVTranspose_sample_a :: "MYFLT list \<Rightarrow> PVStream \<Rightarrow> int \<Rightarrow> PVTranspose \<Rightarrow> PVTranspose option" where
  "PVTranspose_sample_a tr inp i self0 = do {
     c \<leftarrow> rd (pv_count inp) i;
     count' \<leftarrow> wr (tr_count self0) i c;
     let self = self0\<lparr>tr_count := count'\<rparr>;
     if c \<ge> tr_size self - 1 then do {
       transpo \<leftarrow> rd tr i;
       PVTranspose_frame transpo inp self
     } else Some self
   }"

definition PVTranspose_process_a :: "MYFLT list \<Rightarrow> PVStream \<Rightarrow> PVTranspose \<Rightarrow> PVTranspose option" where
  "PVTranspose_process_a tr inp self0 = do {
     self \<leftarrow> PVTranspose_adapt inp self0;
     for_loop 0 (tr_bufsize self) (PVTranspose_sample_a tr inp) self
   }"

section \<open>The spectral reverberation\<close>

record PVVerb =
  vb_bufsize :: int
  vb_revtime :: MYFLT
  vb_damp :: MYFLT
  vb_size :: int
  vb_olaps :: int
  vb_hsize :: int
  vb_hopsize :: int
  vb_overcount :: int
  vb_l_magn :: "MYFLT list"
  vb_magn :: "MYFLT list list"
  vb_freq :: "MYFLT list list"
  vb_count :: "int list"

definition PVVerb_realloc_memories :: "PVVerb \<Rightarrow> PVVerb option" where
  "PVVerb_realloc_memories self = do {
     hsize \<leftarrow> c_div (vb_size self) 2;
     hopsize \<leftarrow> c_div (vb_size self) (vb_olaps self);
     let inputLatency = vb_size self - hopsize;
     cnt \<leftarrow> fill_count (vb_count self) (vb_bufsize self) inputLatency;
     Some (self
       \<lparr> vb_hsize := hsize,
         vb_hopsize := hopsize,
         vb_overcount := 0,
         vb_l_magn := alloc hsize 0,
         vb_magn := alloc (vb_olaps self) (alloc hsize 0),
         vb_freq := alloc (vb_olaps self) (alloc hsize 0),
         vb_count := cnt \<rparr>)
   }"

text \<open>The clamping and mapping of the two parameters (lines 1243 to 1252).\<close>

definition PVVerb_revtime_map :: "MYFLT \<Rightarrow> MYFLT" where
  "PVVerb_revtime_map revtime =
     (let revtime = (if revtime < 0 then 0 else if revtime > 1 then 1 else revtime)
      in revtime * 0.25 + 0.75)"

definition PVVerb_damp_map :: "MYFLT \<Rightarrow> MYFLT" where
  "PVVerb_damp_map damp =
     (let damp = (if damp < 0 then 0 else if damp > 1 then 1 else damp)
      in damp * 0.003 + 0.997)"

text \<open>The value assigned to both \<^verbatim>\<open>magn[overcount][k]\<close> and \<^verbatim>\<open>l_magn[k]\<close> (lines 1266
  to 1269), for the input magnitude \<open>mag\<close> and the follower \<open>l\<close>.\<close>

definition PVVerb_value :: "MYFLT \<Rightarrow> MYFLT \<Rightarrow> MYFLT \<Rightarrow> MYFLT \<Rightarrow> MYFLT" where
  "PVVerb_value revtime amp mag l = (if mag > l then mag else mag + (l - mag) * revtime * amp)"

text \<open>One turn of the loop over the bins (lines 1264 to 1271); the running \<open>amp\<close> is part of
  the loop state.\<close>

definition PVVerb_bin ::
  "MYFLT \<Rightarrow> MYFLT \<Rightarrow> PVStream \<Rightarrow> int \<Rightarrow> MYFLT \<times> PVVerb \<Rightarrow> (MYFLT \<times> PVVerb) option" where
  "PVVerb_bin revtime damp inp k st = do {
     let amp = fst st;
     let self = snd st;
     mag \<leftarrow> rd2 (pv_magn inp) (vb_overcount self) k;
     l \<leftarrow> rd (vb_l_magn self) k;
     let v = PVVerb_value revtime amp mag l;
     l_magn' \<leftarrow> wr (vb_l_magn self) k v;
     magn' \<leftarrow> wr2 (vb_magn self) (vb_overcount self) k v;
     f \<leftarrow> rd2 (pv_freq inp) (vb_overcount self) k;
     freq' \<leftarrow> wr2 (vb_freq self) (vb_overcount self) k f;
     Some (amp * damp, self\<lparr>vb_l_magn := l_magn', vb_magn := magn', vb_freq := freq'\<rparr>)
   }"

text \<open>The work done at a frame edge (lines 1262 to 1275); \<open>revtime\<close> and \<open>damp\<close> are the
  mapped values.\<close>

definition PVVerb_frame :: "MYFLT \<Rightarrow> MYFLT \<Rightarrow> PVStream \<Rightarrow> PVVerb \<Rightarrow> PVVerb option" where
  "PVVerb_frame revtime damp inp self0 = do {
     st \<leftarrow> for_loop 0 (vb_hsize self0) (PVVerb_bin revtime damp inp) (1, self0);
     let self = snd st;
     let oc = vb_overcount self + 1;
     Some (self\<lparr>vb_overcount := (if oc \<ge> vb_olaps self then 0 else oc)\<rparr>)
   }"

definition PVVerb_adapt :: "PVStream \<Rightarrow> PVVerb \<Rightarrow> PVVerb option" where
  "PVVerb_adapt inp self =
     (if vb_size self \<noteq> pv_fftsize inp \<or> vb_olaps self \<noteq> pv_olaps inp
      then PVVerb_realloc_memories (self\<lparr>vb_size := pv_fftsize inp, vb_olaps := pv_olaps inp\<rparr>)
      else Some self)"

definition PVVerb_sample_ii :: "MYFLT \<Rightarrow> MYFLT \<Rightarrow> PVStream \<Rightarrow> int \<Rightarrow> PVVerb \<Rightarrow> PVVerb option" where
  "PVVerb_sample_ii revtime damp inp i self0 = do {
     c \<leftarrow> rd (pv_count inp) i;
     count' \<leftarrow> wr (vb_count self0) i c;
     let self = self0\<lparr>vb_count := count'\<rparr>;
     if c \<ge> vb_size self - 1 then PVVerb_frame revtime damp inp self else Some self
   }"

definition PVVerb_process_ii :: "PVStream \<Rightarrow> PVVerb \<Rightarrow> PVVerb option" where
  "PVVerb_process_ii inp self0 = do {
     let revtime = PVVerb_revtime_map (vb_revtime self0);
     let damp = PVVerb_damp_map (vb_damp self0);
     self \<leftarrow> PVVerb_adapt inp self0;
     for_loop 0 (vb_bufsize self) (PVVerb_sample_ii revtime damp inp) self
   }"

section \<open>The spectral gate\<close>

record PVGate =
  gt_bufsize :: int
  gt_thresh :: MYFLT
  gt_damp :: MYFLT
  gt_size :: int
  gt_olaps :: int
  gt_hsize :: int
  gt_hopsize :: int
  gt_overcount :: int
  gt_magn :: "MYFLT list list"
  gt_freq :: "MYFLT list list"
  gt_count :: "int list"

definition PVGate_realloc_memories :: "PVGate \<Rightarrow> PVGate option" where
  "PVGate_realloc_memories self = do {
     hsize \<leftarrow> c_div (gt_size self) 2;
     hopsize \<leftarrow> c_div (gt_size self) (gt_olaps self);
     let inputLatency = gt_size self - hopsize;
     cnt \<leftarrow> fill_count (gt_count self) (gt_bufsize self) inputLatency;
     Some (self
       \<lparr> gt_hsize := hsize,
         gt_hopsize := hopsize,
         gt_overcount := 0,
         gt_magn := alloc (gt_olaps self) (alloc hsize 0),
         gt_freq := alloc (gt_olaps self) (alloc hsize 0),
         gt_count := cnt \<rparr>)
   }"

text \<open>\<^verbatim>\<open>MYPOW(10.0, thresh * 0.05)\<close>\<close>

definition PVGate_thresh_lin :: "MYFLT \<Rightarrow> MYFLT" where
  "PVGate_thresh_lin thresh = 10 powr (thresh * 0.05)"

text \<open>One turn of the loop over the bins (lines 1791 to 1797); \<open>thresh\<close> is the linear
  threshold.\<close>

definition PVGate_bin :: "MYFLT \<Rightarrow> MYFLT \<Rightarrow> PVStream \<Rightarrow> int \<Rightarrow> PVGate \<Rightarrow> PVGate option" where
  "PVGate_bin thresh damp inp k self = do {
     mag \<leftarrow> rd2 (pv_magn inp) (gt_overcount self) k;
     magn' \<leftarrow> wr2 (gt_magn self) (gt_overcount self) k (if mag < thresh then mag * damp else mag);
     f \<leftarrow> rd2 (pv_freq inp) (gt_overcount self) k;
     freq' \<leftarrow> wr2 (gt_freq self) (gt_overcount self) k f;
     Some (self\<lparr>gt_magn := magn', gt_freq := freq'\<rparr>)
   }"

definition PVGate_frame :: "MYFLT \<Rightarrow> MYFLT \<Rightarrow> PVStream \<Rightarrow> PVGate \<Rightarrow> PVGate option" where
  "PVGate_frame thresh damp inp self0 = do {
     self \<leftarrow> for_loop 0 (gt_hsize self0) (PVGate_bin thresh damp inp) self0;
     let oc = gt_overcount self + 1;
     Some (self\<lparr>gt_overcount := (if oc \<ge> gt_olaps self then 0 else oc)\<rparr>)
   }"

definition PVGate_adapt :: "PVStream \<Rightarrow> PVGate \<Rightarrow> PVGate option" where
  "PVGate_adapt inp self =
     (if gt_size self \<noteq> pv_fftsize inp \<or> gt_olaps self \<noteq> pv_olaps inp
      then PVGate_realloc_memories (self\<lparr>gt_size := pv_fftsize inp, gt_olaps := pv_olaps inp\<rparr>)
      else Some self)"

definition PVGate_sample_ii :: "MYFLT \<Rightarrow> MYFLT \<Rightarrow> PVStream \<Rightarrow> int \<Rightarrow> PVGate \<Rightarrow> PVGate option" where
  "PVGate_sample_ii thresh damp inp i self0 = do {
     c \<leftarrow> rd (pv_count inp) i;
     count' \<leftarrow> wr (gt_count self0) i c;
     let self = self0\<lparr>gt_count := count'\<rparr>;
     if c \<ge> gt_size self - 1 then PVGate_frame thresh damp inp self else Some self
   }"

definition PVGate_process_ii :: "PVStream \<Rightarrow> PVGate \<Rightarrow> PVGate option" where
  "PVGate_process_ii inp self0 = do {
     let thresh = PVGate_thresh_lin (gt_thresh self0);
     let damp = gt_damp self0;
     self \<leftarrow> PVGate_adapt inp self0;
     for_loop 0 (gt_bufsize self) (PVGate_sample_ii thresh damp inp) self
   }"


section \<open>Example nodes\<close>

text \<open>A rectangular window, and an analyzer and a synthesizer for frames of four samples
  with two overlaps at 44100 Hz and blocks of two samples, as they are before their
  first \<^verbatim>\<open>realloc_memories\<close>.\<close>

definition ex_gw :: "int \<Rightarrow> int \<Rightarrow> nat \<Rightarrow> MYFLT" where
  "ex_gw n wintype i = 1"

definition ex_anal0 :: PVAnal where
  "ex_anal0 =
     \<lparr> an_sr = 44100, an_bufsize = 2, an_size = 4, an_olaps = 2,
       an_hsize = 0, an_hopsize = 0, an_wintype = 2, an_incount = 0,
       an_inputLatency = 0, an_overcount = 0, an_factor = 0, an_scale = 0,
       an_input_buffer = [], an_inframe = [], an_outframe = [], an_real = [],
       an_imag = [], an_lastPhase = [], an_window = [], an_magn = [],
       an_freq = [], an_count = [0, 0] \<rparr>"

definition ex_synth0 :: PVSynth where
  "ex_synth0 =
     \<lparr> sy_sr = 44100, sy_bufsize = 2, sy_data = [0, 0], sy_size = 4, sy_hsize = 0,
       sy_olaps = 2, sy_hopsize = 0, sy_wintype = 2, sy_inputLatency = 0, sy_overcount = 0,
       sy_ampscl = 0, sy_factor = 0, sy_scale = 0, sy_output_buffer = [],
       sy_outputAccum = [], sy_inframe = [], sy_outframe = [], sy_real = [], sy_imag = [],
       sy_sumPhase = [], sy_window = [] \<rparr>"

text \<open>A transform that returns silence, to run the examples.\<close>

definition ex_fft :: "MYFLT list \<Rightarrow> nat \<Rightarrow> MYFLT" where
  "ex_fft frame j = 0"

section \<open>Shapes of the tables\<close>

text \<open>A table of \<open>olaps\<close> rows of \<open>hsize\<close> cells, as every \<^verbatim>\<open>realloc_memories\<close> allocates
  \<^verbatim>\<open>magn\<close> and \<^verbatim>\<open>freq\<close>.\<close>

definition table_ok :: "MYFLT list list \<Rightarrow> int \<Rightarrow> int \<Rightarrow> bool" where
  "table_ok m olaps hsize \<longleftrightarrow>
     int (length m) = olaps \<and> (\<forall>row \<in> set m. int (length row) = hsize)"


definition ex_bus :: PVStream where
  "ex_bus = \<lparr> pv_fftsize = 4, pv_olaps = 2, pv_magn = [[0.5, 0.01], [0, 0]],
               pv_freq = [[0, 11025], [0, 0]], pv_count = [2, 3] \<rparr>"







section \<open>Invariants of the analyzer and of the synthesizer\<close>

text \<open>What \<^verbatim>\<open>PVAnal_realloc_memories\<close> establishes for a size of at least two and a number
  of overlaps between one and the size, apart from the position of the write cursor: the
  derived fields, the lengths of the blocks and the range of the slot counter.\<close>

definition PVAnal_shape :: "PVAnal \<Rightarrow> bool" where
  "PVAnal_shape self \<longleftrightarrow>
     2 \<le> an_size self \<and> 0 < an_olaps self \<and> an_olaps self \<le> an_size self \<and>
     an_size self div 2 = an_hsize self \<and>
     an_size self div an_olaps self = an_hopsize self \<and>
     an_size self - an_hopsize self = an_inputLatency self \<and>
     an_factor self = an_sr self / (real_of_int (an_hopsize self) * TWOPI) \<and>
     an_scale self = TWOPI * real_of_int (an_hopsize self) / real_of_int (an_size self) \<and>
     0 \<le> an_overcount self \<and> an_overcount self < an_olaps self \<and>
     int (length (an_input_buffer self)) = an_size self \<and>
     int (length (an_inframe self)) = an_size self \<and>
     int (length (an_outframe self)) = an_size self \<and>
     int (length (an_window self)) = an_size self \<and>
     int (length (an_real self)) = an_hsize self \<and>
     int (length (an_imag self)) = an_hsize self \<and>
     int (length (an_lastPhase self)) = an_hsize self \<and>
     table_ok (an_magn self) (an_olaps self) (an_hsize self) \<and>
     table_ok (an_freq self) (an_olaps self) (an_hsize self) \<and>
     0 \<le> an_bufsize self \<and> int (length (an_count self)) = an_bufsize self"

definition PVAnal_wf :: "PVAnal \<Rightarrow> bool" where
  "PVAnal_wf self \<longleftrightarrow>
     PVAnal_shape self \<and> an_inputLatency self \<le> an_incount self \<and> an_incount self < an_size self"

text \<open>The bounds on the published \<open>count\<close> block.\<close>

definition PVAnal_count_ok :: "PVAnal \<Rightarrow> bool" where
  "PVAnal_count_ok self \<longleftrightarrow>
     list_all (\<lambda>c. an_inputLatency self \<le> c \<and> c \<le> an_size self - 1)
       (take (nat (an_bufsize self)) (an_count self))"

definition PVSynth_shape :: "PVSynth \<Rightarrow> bool" where
  "PVSynth_shape self \<longleftrightarrow>
     2 \<le> sy_size self \<and> 0 < sy_olaps self \<and> sy_olaps self \<le> sy_size self \<and>
     sy_size self div 2 = sy_hsize self \<and>
     sy_size self div sy_olaps self = sy_hopsize self \<and>
     sy_size self - sy_hopsize self = sy_inputLatency self \<and>
     0 \<le> sy_overcount self \<and> sy_overcount self < sy_olaps self \<and>
     int (length (sy_output_buffer self)) = sy_size self \<and>
     int (length (sy_inframe self)) = sy_size self \<and>
     int (length (sy_outframe self)) = sy_size self \<and>
     int (length (sy_window self)) = sy_size self \<and>
     int (length (sy_real self)) = sy_hsize self \<and>
     int (length (sy_imag self)) = sy_hsize self \<and>
     int (length (sy_sumPhase self)) = sy_hsize self \<and>
     int (length (sy_outputAccum self)) = sy_size self + sy_hopsize self \<and>
     0 \<le> sy_bufsize self \<and> int (length (sy_data self)) = sy_bufsize self"

text \<open>The cells \<open>size .. size + hopsize - 1\<close> of the accumulator are zero.\<close>

definition PVSynth_top_zero :: "PVSynth \<Rightarrow> bool" where
  "PVSynth_top_zero self \<longleftrightarrow>
     list_all (\<lambda>x. x = 0) (drop (nat (sy_size self)) (sy_outputAccum self))"

text \<open>A bus as a synthesizer with blocks of \<open>bufsize\<close> samples expects it: a size of at
  least two, between one and size overlaps, tables of that shape, and a \<open>count\<close> block of
  at least \<open>bufsize\<close> entries between \<open>inputLatency\<close> and \<open>size - 1\<close>.\<close>

definition PVStream_ok :: "PVStream \<Rightarrow> int \<Rightarrow> bool" where
  "PVStream_ok inp bufsize \<longleftrightarrow>
     2 \<le> pv_fftsize inp \<and> 0 < pv_olaps inp \<and> pv_olaps inp \<le> pv_fftsize inp \<and>
     table_ok (pv_magn inp) (pv_olaps inp) (pv_fftsize inp div 2) \<and>
     table_ok (pv_freq inp) (pv_olaps inp) (pv_fftsize inp div 2) \<and>
     bufsize \<le> int (length (pv_count inp)) \<and>
     list_all (\<lambda>c. pv_fftsize inp - pv_fftsize inp div pv_olaps inp \<le> c \<and> c \<le> pv_fftsize inp - 1)
       (take (nat bufsize) (pv_count inp))"


section \<open>Array accesses and loops\<close>

lemma rd_in: "0 \<le> i \<Longrightarrow> i < int (length xs) \<Longrightarrow> rd xs i = Some (xs ! nat i)"
  by (simp add: rd_def)

lemma wr_in: "0 \<le> i \<Longrightarrow> i < int (length xs) \<Longrightarrow> wr xs i v = Some (xs[nat i := v])"
  by (simp add: wr_def)

text \<open>An invariant that every turn re-establishes holds when the loop ends, and the loop
  does end with a result.\<close>

lemma for_loop_inv:
  assumes "I k s" and "k \<le> hi"
    and "\<And>j t. k \<le> j \<Longrightarrow> j < hi \<Longrightarrow> I j t \<Longrightarrow> \<exists>t'. body j t = Some t' \<and> I (j + 1) t'"
  shows "\<exists>t'. for_loop k hi body s = Some t' \<and> I hi t'"
  using assms
proof (induction k hi body s rule: for_loop.induct)
  case (1 k hi body s)
  show ?case
  proof (cases "k < hi")
    case True
    from "1.prems"(3)[of k s] True "1.prems"(1) obtain t where t: "body k s = Some t" "I (k + 1) t"
      by auto
    have "\<exists>t'. for_loop (k + 1) hi body t = Some t' \<and> I hi t'"
      using "1.IH"[OF True t(1) t(2)] True "1.prems"(3) by force
    then show ?thesis using True t by (subst for_loop.simps) simp
  next
    case False
    then show ?thesis using "1.prems" by (subst for_loop.simps) simp
  qed
qed

lemma for_loop_empty: "hi \<le> k \<Longrightarrow> for_loop k hi body s = Some s"
  by (subst for_loop.simps) simp

lemma fill_count_Some:
  assumes "bufsize \<le> int (length cnt)"
  shows "\<exists>c. fill_count cnt bufsize v = Some c \<and> length c = length cnt \<and>
        (\<forall>i. 0 \<le> i \<and> i < bufsize \<longrightarrow> c ! nat i = v)"
proof (cases "0 \<le> bufsize")
  case True
  have "\<exists>c. for_loop 0 bufsize (\<lambda>i c. wr c i v) cnt = Some c \<and>
        (length c = length cnt \<and> (\<forall>i. 0 \<le> i \<and> i < bufsize \<longrightarrow> c ! nat i = v))"
    by (rule for_loop_inv[where I = "\<lambda>j c. length c = length cnt \<and> (\<forall>i. 0 \<le> i \<and> i < j \<longrightarrow> c ! nat i = v)"])
       (use assms True in \<open>auto simp: wr_def nth_list_update nat_eq_iff\<close>)
  then show ?thesis by (simp add: fill_count_def)
next
  case False
  then show ?thesis by (simp add: fill_count_def for_loop_empty)
qed

lemma c_div_nonneg: "0 \<le> a \<Longrightarrow> 0 < b \<Longrightarrow> c_div a b = Some (a div b)"
  by (cases "a = 0") (auto simp: c_div_def INT_MIN_def sgn_if)

section \<open>Configuration\<close>

lemma pow2_div_mult:
  fixes a b :: nat
  assumes "2 * (2::int) ^ b \<le> 2 ^ a"
  shows "(2::int) ^ a div 2 ^ b * 2 ^ b = 2 ^ a"
proof -
  have "b \<le> a"
  proof (rule ccontr)
    assume "\<not> b \<le> a"
    then have "a \<le> b" by simp
    then have "(2::int) ^ a \<le> 2 ^ b" by (rule power_increasing) simp
    moreover have "0 < (2::int) ^ b" by simp
    ultimately show False using assms by linarith
  qed
  then have "(2::int) ^ b dvd 2 ^ a" by (simp add: le_imp_power_dvd)
  then show ?thesis by simp
qed

text \<open>
  Claim C4. For a size \<open>2 ^ a\<close> and a number of overlaps \<open>2 ^ b\<close> with
  \<open>2 * olaps \<le> size\<close>, \<^verbatim>\<open>PVAnal_realloc_memories\<close> and \<^verbatim>\<open>PVSynth_realloc_memories\<close>
  return, leave size and olaps as they are, and set \<open>hsize = size / 2\<close>,
  \<open>hopsize = size / olaps\<close> with \<open>hopsize * olaps = size\<close>,
  \<open>inputLatency = size - hopsize\<close> (so \<open>inputLatency + hopsize = size\<close>),
  \<open>overcount = 0\<close> and, for the analyzer, \<open>incount = inputLatency\<close>. The analyzer's
  \<open>count\<close> block holds at least \<open>bufsize\<close> cells, as \<^verbatim>\<open>PVAnal_new\<close> allocates it.
\<close>

theorem C4_derived_configuration:
  assumes sz: "an_size A = 2 ^ a" "sy_size S = 2 ^ a"
    and ol: "an_olaps A = 2 ^ b" "sy_olaps S = 2 ^ b"
    and le: "2 * (2::int) ^ b \<le> 2 ^ a"
    and cnt: "an_bufsize A \<le> int (length (an_count A))"
  shows "(\<exists>A'. PVAnal_realloc_memories gw A = Some A' \<and>
            an_size A' = 2 ^ a \<and> an_olaps A' = 2 ^ b \<and>
            an_hsize A' = an_size A' div 2 \<and>
            an_hopsize A' = an_size A' div an_olaps A' \<and>
            an_hopsize A' * an_olaps A' = an_size A' \<and>
            an_inputLatency A' = an_size A' - an_hopsize A' \<and>
            an_inputLatency A' + an_hopsize A' = an_size A' \<and>
            an_incount A' = an_inputLatency A' \<and>
            an_overcount A' = 0) \<and>
         (\<exists>S'. PVSynth_realloc_memories gw S = Some S' \<and>
            sy_size S' = 2 ^ a \<and> sy_olaps S' = 2 ^ b \<and>
            sy_hsize S' = sy_size S' div 2 \<and>
            sy_hopsize S' = sy_size S' div sy_olaps S' \<and>
            sy_hopsize S' * sy_olaps S' = sy_size S' \<and>
            sy_inputLatency S' = sy_size S' - sy_hopsize S' \<and>
            sy_inputLatency S' + sy_hopsize S' = sy_size S' \<and>
            sy_overcount S' = 0)"
proof -
  have d2: "c_div (2 ^ a) 2 = Some (2 ^ a div 2)"
    by (rule c_div_nonneg) simp_all
  have dol: "c_div (2 ^ a) (2 ^ b) = Some (2 ^ a div 2 ^ b)"
    by (rule c_div_nonneg) simp_all
  from fill_count_Some[OF cnt] obtain c
    where c: "fill_count (an_count A) (an_bufsize A) (2 ^ a - 2 ^ a div 2 ^ b) = Some c"
    by blast
  have "\<exists>A'. PVAnal_realloc_memories gw A = Some A' \<and>
            an_size A' = 2 ^ a \<and> an_olaps A' = 2 ^ b \<and>
            an_hsize A' = an_size A' div 2 \<and>
            an_hopsize A' = an_size A' div an_olaps A' \<and>
            an_hopsize A' * an_olaps A' = an_size A' \<and>
            an_inputLatency A' = an_size A' - an_hopsize A' \<and>
            an_inputLatency A' + an_hopsize A' = an_size A' \<and>
            an_incount A' = an_inputLatency A' \<and>
            an_overcount A' = 0"
    using pow2_div_mult[OF le]
    by (simp add: PVAnal_realloc_memories_def sz ol d2 dol c Let_def)
  moreover have "\<exists>S'. PVSynth_realloc_memories gw S = Some S' \<and>
            sy_size S' = 2 ^ a \<and> sy_olaps S' = 2 ^ b \<and>
            sy_hsize S' = sy_size S' div 2 \<and>
            sy_hopsize S' = sy_size S' div sy_olaps S' \<and>
            sy_hopsize S' * sy_olaps S' = sy_size S' \<and>
            sy_inputLatency S' = sy_size S' - sy_hopsize S' \<and>
            sy_inputLatency S' + sy_hopsize S' = sy_size S' \<and>
            sy_overcount S' = 0"
    using pow2_div_mult[OF le]
    by (simp add: PVSynth_realloc_memories_def sz ol d2 dol)
  ultimately show ?thesis by blast
qed

theorem C4_derived_configuration_witness:
  "(\<exists>A'. PVAnal_realloc_memories ex_gw ex_anal0 = Some A' \<and>
      an_size A' = 4 \<and> an_olaps A' = 2 \<and> an_hsize A' = 2 \<and> an_hopsize A' = 2 \<and>
      an_hopsize A' * an_olaps A' = an_size A' \<and> an_inputLatency A' = 2 \<and>
      an_inputLatency A' + an_hopsize A' = an_size A' \<and>
      an_incount A' = an_inputLatency A' \<and> an_overcount A' = 0) \<and>
   (\<exists>S'. PVSynth_realloc_memories ex_gw ex_synth0 = Some S' \<and>
      sy_size S' = 4 \<and> sy_olaps S' = 2 \<and> sy_hsize S' = 2 \<and> sy_hopsize S' = 2 \<and>
      sy_hopsize S' * sy_olaps S' = sy_size S' \<and> sy_inputLatency S' = 2 \<and>
      sy_inputLatency S' + sy_hopsize S' = sy_size S' \<and> sy_overcount S' = 0)"
proof -
  have h: "an_size ex_anal0 = 2 ^ 2" "sy_size ex_synth0 = 2 ^ 2"
    "an_olaps ex_anal0 = 2 ^ 1" "sy_olaps ex_synth0 = 2 ^ 1"
    "2 * (2::int) ^ 1 \<le> 2 ^ 2"
    "an_bufsize ex_anal0 \<le> int (length (an_count ex_anal0))"
    by (simp_all add: ex_anal0_def ex_synth0_def)
  from C4_derived_configuration[OF h, where gw = ex_gw] show ?thesis
    by (elim conjE exE) (simp del: One_nat_def)
qed

section \<open>Snapping to a power of two\<close>

lemma isPowerOfTwo_1024: "isPowerOfTwo 1024"
  by (simp add: isPowerOfTwo_def wrap_int_def)

lemma not_isPowerOfTwo_3: "\<not> isPowerOfTwo 3"
  by (simp add: isPowerOfTwo_def wrap_int_def)

lemma next_pow2_loop_3: "next_pow2_loop 1 3 = Some 4"
  by (simp add: next_pow2_loop.simps wrap_int_def)

text \<open>
  Claim C1, at the input where the code departs from it. \<^verbatim>\<open>PVAnal_new\<close> called with
  \<open>size = 1024\<close> and \<open>olaps = 3\<close> returns a node whose \<open>olaps\<close> is still 3, which is
  not a power of two, and prints no diagnostic; \<^verbatim>\<open>PVAnal_setOverlaps\<close> called on that
  node with the same 3 snaps it to 4 and prints the diagnostic.
\<close>

theorem C1_new_keeps_olaps:
  "\<exists>self self'. PVAnal_new gw sr 64 1024 3 2 = Some ([], self) \<and> an_size self = 1024 \<and>
      an_olaps self = 3 \<and> \<not> isPowerOfTwo (an_olaps self) \<and>
      PVAnal_setOverlaps gw self 3 = Some ([FFT_olaps_snapped 4], self') \<and>
      an_olaps self' = 4 \<and> isPowerOfTwo (an_olaps self')"
proof -
  have d: "c_div 1024 3 = Some 341" "c_div 1024 2 = Some 512" "c_div 1024 4 = Some 256"
    by (simp_all add: c_div_def INT_MIN_def)
  obtain c where c: "fill_count (alloc 64 0) 64 683 = Some c" "length c = 64"
    using fill_count_Some[of 64 "alloc 64 0" 683] by (auto simp: alloc_def)
  have "\<exists>self. PVAnal_new gw sr 64 1024 3 2 = Some ([], self) \<and> an_size self = 1024 \<and>
      an_olaps self = 3 \<and> an_bufsize self = 64 \<and> an_count self = c"
    by (simp add: PVAnal_new_def snap_pow2_def isPowerOfTwo_1024 PVAnal_realloc_memories_def d c)
  then obtain self where self: "PVAnal_new gw sr 64 1024 3 2 = Some ([], self)"
    "an_size self = 1024" "an_olaps self = 3" "an_bufsize self = 64" "an_count self = c"
    by blast
  obtain c' where c': "fill_count c 64 768 = Some c'"
    using fill_count_Some[of 64 c 768] c(2) by auto
  have p4: "isPowerOfTwo 4"
    by (simp add: isPowerOfTwo_def wrap_int_def)
  have "\<exists>self'. PVAnal_setOverlaps gw self 3 = Some ([FFT_olaps_snapped 4], self') \<and>
      an_olaps self' = 4"
    by (simp add: PVAnal_setOverlaps_def snap_pow2_def not_isPowerOfTwo_3 next_pow2_loop_3
        PVAnal_realloc_memories_def self d c')
  with self p4 not_isPowerOfTwo_3 show ?thesis
    by auto
qed

section \<open>Tables\<close>

lemma table_ok_row:
  "table_ok m olaps hsize \<Longrightarrow> 0 \<le> i \<Longrightarrow> i < olaps \<Longrightarrow> int (length (m ! nat i)) = hsize"
  by (auto simp: table_ok_def)

lemma rd2_in:
  assumes "table_ok m olaps hsize" "0 \<le> i" "i < olaps" "0 \<le> j" "j < hsize"
  shows "rd2 m i j = Some (m ! nat i ! nat j)"
  using assms table_ok_row[OF assms(1-3)] by (simp add: rd2_def rd_def table_ok_def)

lemma wr2_in:
  assumes "table_ok m olaps hsize" "0 \<le> i" "i < olaps" "0 \<le> j" "j < hsize"
  shows "wr2 m i j v = Some (m[nat i := (m ! nat i)[nat j := v]])"
  using assms table_ok_row[OF assms(1-3)] by (simp add: wr2_def rd_def wr_def table_ok_def)

lemma table_ok_update:
  assumes "table_ok m olaps hsize"
  shows "table_ok (m[i := (m ! i)[j := v]]) olaps hsize"
proof (cases "i < length m")
  case True
  then have "int (length ((m ! i)[j := v])) = hsize"
    using assms by (auto simp: table_ok_def)
  moreover have "set (m[i := (m ! i)[j := v]]) \<subseteq> insert ((m ! i)[j := v]) (set m)"
    by (rule set_update_subset_insert)
  ultimately show ?thesis
    using assms unfolding table_ok_def by auto
next
  case False
  then have "m[i := (m ! i)[j := v]] = m"
    by (simp add: list_update_beyond)
  then show ?thesis using assms by simp
qed

section \<open>The spectral gate at a frame edge\<close>



lemma table_nth_update:
  assumes "table_ok m olaps hsize" "0 \<le> i" "i < olaps" "0 \<le> j" "j < hsize" "0 \<le> k"
  shows "m[nat i := (m ! nat i)[nat j := v]] ! nat i ! nat k = (if k = j then v else m ! nat i ! nat k)"
proof -
  have i: "nat i < length m"
    using assms(1-3) by (simp add: table_ok_def nat_less_iff)
  have j: "nat j < length (m ! nat i)"
    using table_ok_row[OF assms(1-3)] assms(4,5) by simp
  have "nat j = nat k \<longleftrightarrow> k = j"
    using assms(4,6) by auto
  then show ?thesis
    using i j by (simp add: nth_list_update)
qed





section \<open>The spectral reverberation at a frame edge\<close>
















section \<open>Phase and frequency\<close>

lemma phase_roundtrip:
  fixes sr d :: real and hop size k :: int
  assumes "0 < sr" "0 < hop" "0 < size"
  shows "((d + real_of_int k * (TWOPI * real_of_int hop / real_of_int size))
            * (sr / (real_of_int hop * TWOPI))
          - real_of_int k * (sr / real_of_int size)) * (real_of_int hop * TWOPI / sr) = d"
proof -
  have nz: "sr \<noteq> 0" "real_of_int hop \<noteq> 0" "real_of_int size \<noteq> 0" "TWOPI \<noteq> 0"
    using assms by (simp_all add: TWOPI_def)
  show ?thesis
    using nz by (simp add: field_simps)
qed

lemma PVSynth_bin_Some:
  assumes "0 \<le> k" "k < int (length (sy_sumPhase s))" "k < int (length (sy_real s))"
    "k < int (length (sy_imag s))"
    "rd2 (pv_magn inp) (sy_overcount s) k = Some mag"
    "rd2 (pv_freq inp) (sy_overcount s) k = Some f"
  shows "PVSynth_bin inp k s =
     Some (s\<lparr>sy_sumPhase := (sy_sumPhase s)[nat k := sy_sumPhase s ! nat k + PVSynth_phase_inc s k f],
             sy_real := (sy_real s)[nat k := mag * cos (sy_sumPhase s ! nat k + PVSynth_phase_inc s k f)],
             sy_imag := (sy_imag s)[nat k := mag * sin (sy_sumPhase s ! nat k + PVSynth_phase_inc s k f)]\<rparr>)"
  using assms by (simp add: PVSynth_bin_def rd_def wr_def Let_def)

text \<open>
  Claim C3. For a sampling rate \<open>sr > 0\<close>, a size \<open>2 ^ a\<close> and a number of overlaps \<open>2 ^ b\<close>
  with \<open>hopsize = size / olaps > 0\<close>, the analyzer and the synthesizer configured by their
  \<^verbatim>\<open>realloc_memories\<close> have \<open>scale = 2 pi hopsize / size\<close>, \<open>factor = sr / (hopsize 2 pi)\<close>
  (analyzer) and \<open>scale = sr / size\<close>, \<open>factor = hopsize 2 pi / sr\<close> (synthesizer), and for
  every bin \<open>k\<close> and every real phase difference \<open>d\<close> the synthesizer's conversion of a
  frequency to a phase advance undoes the analyzer's conversion of \<open>d\<close> to a frequency:
  \<open>((d + k scale\<^sub>a) factor\<^sub>a - k scale\<^sub>s) factor\<^sub>s = d\<close>. Hence a turn of the synthesizer's
  loop over the bins that reads from the bus the frequency the analyzer publishes for
  \<open>d\<close> adds exactly \<open>d\<close> to \<^verbatim>\<open>sumPhase[k]\<close>.
\<close>

theorem C3_phase_roundtrip:
  assumes sr: "0 < sr" "an_sr A = sr" "sy_sr S = sr"
    and sz: "an_size A = 2 ^ a" "sy_size S = 2 ^ a"
    and ol: "an_olaps A = 2 ^ b" "sy_olaps S = 2 ^ b"
    and hop: "0 < (2::int) ^ a div 2 ^ b"
    and cnt: "an_bufsize A \<le> int (length (an_count A))"
  shows "\<exists>A' S'. PVAnal_realloc_memories gw A = Some A' \<and>
           PVSynth_realloc_memories gw' S = Some S' \<and>
           an_hopsize A' = 2 ^ a div 2 ^ b \<and> sy_hopsize S' = 2 ^ a div 2 ^ b \<and>
           an_scale A' = 2 * pi * real_of_int (an_hopsize A') / real_of_int (an_size A') \<and>
           an_factor A' = sr / (real_of_int (an_hopsize A') * (2 * pi)) \<and>
           sy_scale S' = sr / real_of_int (sy_size S') \<and>
           sy_factor S' = real_of_int (sy_hopsize S') * (2 * pi) / sr \<and>
           (\<forall>k d. PVSynth_phase_inc S' k (PVAnal_freq A' k d) = d) \<and>
           (\<forall>k d T inp mag.
              sy_scale T = sy_scale S' \<and> sy_factor T = sy_factor S' \<and>
              0 \<le> k \<and> k < int (length (sy_sumPhase T)) \<and> k < int (length (sy_real T)) \<and>
              k < int (length (sy_imag T)) \<and>
              rd2 (pv_magn inp) (sy_overcount T) k = Some mag \<and>
              rd2 (pv_freq inp) (sy_overcount T) k = Some (PVAnal_freq A' k d) \<longrightarrow>
              (\<exists>T'. PVSynth_bin inp k T = Some T' \<and>
                 sy_sumPhase T' ! nat k = sy_sumPhase T ! nat k + d))"
proof -
  let ?hop = "(2::int) ^ a div 2 ^ b"
  have d2: "c_div (2 ^ a) 2 = Some (2 ^ a div 2)"
    by (rule c_div_nonneg) simp_all
  have dol: "c_div (2 ^ a) (2 ^ b) = Some ?hop"
    by (rule c_div_nonneg) simp_all
  from fill_count_Some[OF cnt] obtain c
    where c: "fill_count (an_count A) (an_bufsize A) (2 ^ a - ?hop) = Some c"
    by blast
  obtain A' where A': "PVAnal_realloc_memories gw A = Some A'"
    "an_hopsize A' = ?hop" "an_size A' = 2 ^ a"
    "an_scale A' = TWOPI * real_of_int ?hop / real_of_int ((2::int) ^ a)"
    "an_factor A' = sr / (real_of_int ?hop * TWOPI)"
    by (simp add: PVAnal_realloc_memories_def sz ol sr d2 dol c Let_def)
  obtain S' where S': "PVSynth_realloc_memories gw' S = Some S'"
    "sy_hopsize S' = ?hop" "sy_size S' = 2 ^ a"
    "sy_scale S' = sr / real_of_int ((2::int) ^ a)"
    "sy_factor S' = real_of_int ?hop * TWOPI / sr"
    by (simp add: PVSynth_realloc_memories_def sz ol sr d2 dol)
  have rt: "PVSynth_phase_inc S' k (PVAnal_freq A' k d) = d" for k d
    unfolding PVSynth_phase_inc_def PVAnal_freq_def A' S'
    by (rule phase_roundtrip[OF sr(1) hop]) simp
  have bin: "\<exists>T'. PVSynth_bin inp k T = Some T' \<and> sy_sumPhase T' ! nat k = sy_sumPhase T ! nat k + d"
    if "sy_scale T = sy_scale S' \<and> sy_factor T = sy_factor S' \<and>
              0 \<le> k \<and> k < int (length (sy_sumPhase T)) \<and> k < int (length (sy_real T)) \<and>
              k < int (length (sy_imag T)) \<and>
              rd2 (pv_magn inp) (sy_overcount T) k = Some mag \<and>
              rd2 (pv_freq inp) (sy_overcount T) k = Some (PVAnal_freq A' k d)" for k d T inp mag
  proof -
    have "PVSynth_phase_inc T k (PVAnal_freq A' k d) = PVSynth_phase_inc S' k (PVAnal_freq A' k d)"
      using that by (simp add: PVSynth_phase_inc_def)
    then have "PVSynth_phase_inc T k (PVAnal_freq A' k d) = d"
      by (simp add: rt)
    moreover have "nat k < length (sy_sumPhase T)"
      using that by (simp add: nat_less_iff)
    ultimately show ?thesis
      using that PVSynth_bin_Some[of k T inp mag "PVAnal_freq A' k d"] by simp
  qed
  show ?thesis
    apply (rule exI[of _ A'], rule exI[of _ S'])
    apply (intro conjI allI impI)
             apply (rule A'(1))
            apply (rule S'(1))
           apply (rule A'(2))
          apply (rule S'(2))
         apply (simp add: A' TWOPI_def)
        apply (simp add: A' TWOPI_def)
       apply (simp add: S')
      apply (simp add: S' TWOPI_def)
     apply (rule rt)
    apply (rule bin, assumption)
    done
qed


theorem C3_phase_roundtrip_witness:
  "(0::real) < 44100 \<and> an_sr ex_anal0 = 44100 \<and> sy_sr ex_synth0 = 44100 \<and>
   an_size ex_anal0 = 2 ^ 2 \<and> sy_size ex_synth0 = 2 ^ 2 \<and>
   an_olaps ex_anal0 = 2 ^ 1 \<and> sy_olaps ex_synth0 = 2 ^ 1 \<and>
   (\<exists>A' S'. PVAnal_realloc_memories ex_gw ex_anal0 = Some A' \<and>
      PVSynth_realloc_memories ex_gw ex_synth0 = Some S' \<and>
      an_hopsize A' = 2 \<and> sy_hopsize S' = 2 \<and>
      PVSynth_phase_inc S' 1 (PVAnal_freq A' 1 (1 / 2)) = 1 / 2)"
proof -
  have h: "(0::real) < 44100" "an_sr ex_anal0 = 44100" "sy_sr ex_synth0 = 44100"
    "an_size ex_anal0 = 2 ^ 2" "sy_size ex_synth0 = 2 ^ 2"
    "an_olaps ex_anal0 = 2 ^ 1" "sy_olaps ex_synth0 = 2 ^ 1"
    "0 < (2::int) ^ 2 div 2 ^ 1"
    "an_bufsize ex_anal0 \<le> int (length (an_count ex_anal0))"
    by (simp_all add: ex_anal0_def ex_synth0_def)
  from C3_phase_roundtrip[OF h, where gw = ex_gw and gw' = ex_gw] obtain A' S' where
    r: "PVAnal_realloc_memories ex_gw ex_anal0 = Some A'"
       "PVSynth_realloc_memories ex_gw ex_synth0 = Some S'"
       "an_hopsize A' = 2 ^ 2 div 2 ^ 1" "sy_hopsize S' = 2 ^ 2 div 2 ^ 1"
       "\<forall>k d. PVSynth_phase_inc S' k (PVAnal_freq A' k d) = d"
    by (elim exE conjE)
  from r(3,4) have "an_hopsize A' = 2" "sy_hopsize S' = 2" by simp_all
  moreover from r(5) have "PVSynth_phase_inc S' 1 (PVAnal_freq A' 1 (1 / 2)) = 1 / 2" by blast
  ultimately show ?thesis using h(1-7) r(1,2) by blast
qed

section \<open>The transposer at a frame edge\<close>















section \<open>The analyzer's loop over the bins\<close>

lemma PVAnal_shape_cfg:
  assumes "PVAnal_shape s"
  shows "2 \<le> an_size s" "0 < an_olaps s" "an_olaps s \<le> an_size s"
    "an_size s div 2 = an_hsize s" "an_size s div an_olaps s = an_hopsize s"
    "an_size s - an_hopsize s = an_inputLatency s"
    "an_factor s = an_sr s / (real_of_int (an_hopsize s) * TWOPI)"
    "an_scale s = TWOPI * real_of_int (an_hopsize s) / real_of_int (an_size s)"
    "0 \<le> an_bufsize s" "int (length (an_count s)) = an_bufsize s"
  using assms unfolding PVAnal_shape_def by blast+

lemma PVAnal_shape_oc:
  assumes "PVAnal_shape s"
  shows "0 \<le> an_overcount s" "an_overcount s < an_olaps s"
  using assms unfolding PVAnal_shape_def by blast+

lemma PVAnal_shape_len:
  assumes "PVAnal_shape s"
  shows "int (length (an_input_buffer s)) = an_size s" "int (length (an_inframe s)) = an_size s"
    "int (length (an_outframe s)) = an_size s" "int (length (an_window s)) = an_size s"
    "int (length (an_real s)) = an_hsize s" "int (length (an_imag s)) = an_hsize s"
    "int (length (an_lastPhase s)) = an_hsize s"
    "table_ok (an_magn s) (an_olaps s) (an_hsize s)" "table_ok (an_freq s) (an_olaps s) (an_hsize s)"
  using assms unfolding PVAnal_shape_def by blast+

lemma PVAnal_shape_bins_upd:
  assumes "PVAnal_shape s" "length LP = length (an_lastPhase s)"
    "table_ok M (an_olaps s) (an_hsize s)" "table_ok F (an_olaps s) (an_hsize s)"
  shows "PVAnal_shape (s\<lparr>an_lastPhase := LP, an_magn := M, an_freq := F\<rparr>)"
  using assms unfolding PVAnal_shape_def by simp

lemma PVAnal_bin_Some:
  assumes "PVAnal_shape s" "0 \<le> k" "k < an_hsize s"
  shows "PVAnal_bin k s =
     Some (s\<lparr>an_lastPhase := (an_lastPhase s)[nat k := MYATAN2 (an_imag s ! nat k) (an_real s ! nat k)],
             an_magn := (an_magn s)[nat (an_overcount s) := (an_magn s ! nat (an_overcount s))
                [nat k := sqrt (an_real s ! nat k * an_real s ! nat k + an_imag s ! nat k * an_imag s ! nat k)]],
             an_freq := (an_freq s)[nat (an_overcount s) := (an_freq s ! nat (an_overcount s))
                [nat k := PVAnal_freq s k (wrap_below (wrap_above
                    (MYATAN2 (an_imag s ! nat k) (an_real s ! nat k) - an_lastPhase s ! nat k)))]]\<rparr>)"
  using assms(2,3) PVAnal_shape_oc[OF assms(1)] PVAnal_shape_len[OF assms(1)]
  by (simp add: PVAnal_bin_def rd_in wr_in Let_def
      wr2_in[where olaps = "an_olaps s" and hsize = "an_hsize s"])

lemma PVAnal_bins:
  assumes sh: "PVAnal_shape s"
  shows "\<exists>LP M F. for_loop 0 (an_hsize s) PVAnal_bin s
            = Some (s\<lparr>an_lastPhase := LP, an_magn := M, an_freq := F\<rparr>) \<and>
          length LP = length (an_lastPhase s) \<and>
          table_ok M (an_olaps s) (an_hsize s) \<and> table_ok F (an_olaps s) (an_hsize s) \<and>
          (\<forall>k. 0 \<le> k \<and> k < an_hsize s \<longrightarrow>
             LP ! nat k = MYATAN2 (an_imag s ! nat k) (an_real s ! nat k) \<and>
             M ! nat (an_overcount s) ! nat k
               = sqrt (an_real s ! nat k * an_real s ! nat k + an_imag s ! nat k * an_imag s ! nat k) \<and>
             F ! nat (an_overcount s) ! nat k
               = PVAnal_freq s k (wrap_below (wrap_above
                    (MYATAN2 (an_imag s ! nat k) (an_real s ! nat k) - an_lastPhase s ! nat k))))"
proof -
  let ?oc = "an_overcount s"
  let ?ph = "\<lambda>k. MYATAN2 (an_imag s ! nat k) (an_real s ! nat k)"
  let ?mg = "\<lambda>k. sqrt (an_real s ! nat k * an_real s ! nat k + an_imag s ! nat k * an_imag s ! nat k)"
  let ?fq = "\<lambda>k. PVAnal_freq s k (wrap_below (wrap_above (?ph k - an_lastPhase s ! nat k)))"
  let ?I = "\<lambda>j t. \<exists>LP M F. t = s\<lparr>an_lastPhase := LP, an_magn := M, an_freq := F\<rparr> \<and>
          length LP = length (an_lastPhase s) \<and>
          table_ok M (an_olaps s) (an_hsize s) \<and> table_ok F (an_olaps s) (an_hsize s) \<and>
          (\<forall>k. 0 \<le> k \<and> k < j \<longrightarrow>
             LP ! nat k = ?ph k \<and> M ! nat ?oc ! nat k = ?mg k \<and> F ! nat ?oc ! nat k = ?fq k) \<and>
          (\<forall>k. j \<le> k \<and> k < an_hsize s \<longrightarrow> LP ! nat k = an_lastPhase s ! nat k)"
  have oc: "0 \<le> ?oc" "?oc < an_olaps s"
    by (rule PVAnal_shape_oc[OF sh])+
  have tm: "table_ok (an_magn s) (an_olaps s) (an_hsize s)"
    and tf: "table_ok (an_freq s) (an_olaps s) (an_hsize s)"
    and len: "int (length (an_lastPhase s)) = an_hsize s"
    by (rule PVAnal_shape_len[OF sh])+
  have h0: "0 \<le> an_hsize s"
    using len by simp
  have init: "?I 0 s"
    by (rule exI[of _ "an_lastPhase s"], rule exI[of _ "an_magn s"], rule exI[of _ "an_freq s"])
       (simp add: tm tf)
  have step: "\<exists>t'. PVAnal_bin j t = Some t' \<and> ?I (j + 1) t'"
    if j: "0 \<le> j" "j < an_hsize s" and I: "?I j t" for j t
  proof -
    from I obtain LP M F where t: "t = s\<lparr>an_lastPhase := LP, an_magn := M, an_freq := F\<rparr>"
      and L: "length LP = length (an_lastPhase s)"
      and M: "table_ok M (an_olaps s) (an_hsize s)" and F: "table_ok F (an_olaps s) (an_hsize s)"
      and c: "\<forall>k. 0 \<le> k \<and> k < j \<longrightarrow>
             LP ! nat k = ?ph k \<and> M ! nat ?oc ! nat k = ?mg k \<and> F ! nat ?oc ! nat k = ?fq k"
      and u: "\<forall>k. j \<le> k \<and> k < an_hsize s \<longrightarrow> LP ! nat k = an_lastPhase s ! nat k"
      by blast
    let ?t = "s\<lparr>an_lastPhase := LP, an_magn := M, an_freq := F\<rparr>"
    have rt: "PVAnal_shape ?t"
      by (rule PVAnal_shape_bins_upd[OF sh L M F])
    have Lj: "LP ! nat j = an_lastPhase s ! nat j"
      using u j by simp
    have fq: "PVAnal_freq ?t j x = PVAnal_freq s j x" for x
      by (simp add: PVAnal_freq_def)
    let ?L' = "LP[nat j := ?ph j]"
    let ?M' = "M[nat ?oc := (M ! nat ?oc)[nat j := ?mg j]]"
    let ?F' = "F[nat ?oc := (F ! nat ?oc)[nat j := ?fq j]]"
    have b: "PVAnal_bin j t = Some (s\<lparr>an_lastPhase := ?L', an_magn := ?M', an_freq := ?F'\<rparr>)"
      using PVAnal_bin_Some[OF rt, of j] j by (simp add: t Lj fq)
    have nj: "nat j < length LP"
      using j L len by simp
    have ne: "nat k \<noteq> nat j" if "0 \<le> k" "k \<noteq> j" for k
      using that j by simp
    have c': "\<forall>k. 0 \<le> k \<and> k < j + 1 \<longrightarrow>
             ?L' ! nat k = ?ph k \<and> ?M' ! nat ?oc ! nat k = ?mg k \<and> ?F' ! nat ?oc ! nat k = ?fq k"
    proof (intro allI impI)
      fix k assume k: "0 \<le> k \<and> k < j + 1"
      show "?L' ! nat k = ?ph k \<and> ?M' ! nat ?oc ! nat k = ?mg k \<and> ?F' ! nat ?oc ! nat k = ?fq k"
      proof (cases "k = j")
        case True
        then show ?thesis
          using j nj by (simp add: table_nth_update[OF M oc j] table_nth_update[OF F oc j])
      next
        case False
        with k have "0 \<le> k \<and> k < j" by simp
        with c False ne[of k] show ?thesis
          using k by (simp add: table_nth_update[OF M oc j] table_nth_update[OF F oc j])
      qed
    qed
    have u': "\<forall>k. j + 1 \<le> k \<and> k < an_hsize s \<longrightarrow> ?L' ! nat k = an_lastPhase s ! nat k"
    proof (intro allI impI)
      fix k assume k: "j + 1 \<le> k \<and> k < an_hsize s"
      then have "nat j \<noteq> nat k" using j by linarith
      moreover have "LP ! nat k = an_lastPhase s ! nat k" using u k by simp
      ultimately show "?L' ! nat k = an_lastPhase s ! nat k" by simp
    qed
    have "?I (j + 1) (s\<lparr>an_lastPhase := ?L', an_magn := ?M', an_freq := ?F'\<rparr>)"
      apply (rule exI[of _ ?L'], rule exI[of _ ?M'], rule exI[of _ ?F'])
      apply (intro conjI refl)
          apply (simp add: L)
         apply (rule table_ok_update[OF M])
        apply (rule table_ok_update[OF F])
       apply (rule c')
      apply (rule u')
      done
    with b show ?thesis by simp
  qed
  have "\<exists>t'. for_loop 0 (an_hsize s) PVAnal_bin s = Some t' \<and> ?I (an_hsize s) t'"
  proof (rule for_loop_inv[where I = ?I and body = PVAnal_bin])
    show "?I 0 s" by (rule init)
    show "0 \<le> an_hsize s" by (rule h0)
    show "\<exists>t'. PVAnal_bin j t = Some t' \<and> ?I (j + 1) t'"
      if "0 \<le> j" "j < an_hsize s" "?I j t" for j t
      using step[OF that] .
  qed
  then obtain t' LP M F where "for_loop 0 (an_hsize s) PVAnal_bin s = Some t'"
    "t' = s\<lparr>an_lastPhase := LP, an_magn := M, an_freq := F\<rparr>"
    "length LP = length (an_lastPhase s)"
    "table_ok M (an_olaps s) (an_hsize s)" "table_ok F (an_olaps s) (an_hsize s)"
    "\<forall>k. 0 \<le> k \<and> k < an_hsize s \<longrightarrow>
             LP ! nat k = ?ph k \<and> M ! nat ?oc ! nat k = ?mg k \<and> F ! nat ?oc ! nat k = ?fq k"
    by (elim exE conjE)
  then show ?thesis
    by (intro exI[of _ LP] exI[of _ M] exI[of _ F]) simp
qed










section \<open>The analyzer on a block\<close>

lemma c_rem_nonneg: "0 \<le> a \<Longrightarrow> 0 < b \<Longrightarrow> c_rem a b = Some (a mod b)"
proof -
  assume a: "0 \<le> a" and b: "0 < b"
  have "a - b * (a div b) = a mod b"
    by (simp add: minus_mult_div_eq_mod)
  then show ?thesis
    using a b by (cases "a = 0") (auto simp: c_rem_def INT_MIN_def sgn_if)
qed

lemma PVAnal_shape_inframe:
  "PVAnal_shape s \<Longrightarrow> int (length fr) = an_size s \<Longrightarrow> PVAnal_shape (s\<lparr>an_inframe := fr\<rparr>)"
  unfolding PVAnal_shape_def by simp

lemma PVAnal_shape_outframe:
  "PVAnal_shape s \<Longrightarrow> int (length fr) = an_size s \<Longrightarrow> PVAnal_shape (s\<lparr>an_outframe := fr\<rparr>)"
  unfolding PVAnal_shape_def by simp

lemma PVAnal_shape_input_buffer:
  "PVAnal_shape s \<Longrightarrow> int (length ib) = an_size s \<Longrightarrow> PVAnal_shape (s\<lparr>an_input_buffer := ib\<rparr>)"
  unfolding PVAnal_shape_def by simp

lemma PVAnal_shape_real_imag:
  "PVAnal_shape s \<Longrightarrow> int (length re) = an_hsize s \<Longrightarrow> int (length im) = an_hsize s
     \<Longrightarrow> PVAnal_shape (s\<lparr>an_real := re, an_imag := im\<rparr>)"
  unfolding PVAnal_shape_def by simp

lemma PVAnal_shape_incount:
  "PVAnal_shape s \<Longrightarrow> PVAnal_shape (s\<lparr>an_incount := c\<rparr>)"
  unfolding PVAnal_shape_def by simp

lemma PVAnal_shape_overcount:
  "PVAnal_shape s \<Longrightarrow> 0 \<le> c \<Longrightarrow> c < an_olaps s \<Longrightarrow> PVAnal_shape (s\<lparr>an_overcount := c\<rparr>)"
  unfolding PVAnal_shape_def by simp

lemma PVAnal_shape_sample:
  "PVAnal_shape s \<Longrightarrow> int (length ib) = an_size s \<Longrightarrow> length cnt = length (an_count s)
     \<Longrightarrow> PVAnal_shape (s\<lparr>an_input_buffer := ib, an_count := cnt, an_incount := c\<rparr>)"
  unfolding PVAnal_shape_def by simp

lemma PVAnal_hop:
  assumes "PVAnal_shape s"
  shows "0 < an_hopsize s" "an_hopsize s \<le> an_size s" "0 \<le> an_inputLatency s"
    "an_inputLatency s < an_size s" "0 < an_hsize s" "an_hsize s < an_size s"
proof -
  note c = PVAnal_shape_cfg[OF assms]
  have "0 < an_size s div an_olaps s"
    using c(1-3) by (simp add: pos_imp_zdiv_pos_iff)
  then show h: "0 < an_hopsize s"
    by (simp add: c(5))
  have "an_size s div an_olaps s \<le> an_size s div 1"
    using c(1,2) by (intro zdiv_mono2) simp_all
  then show l: "an_hopsize s \<le> an_size s"
    by (simp add: c(5))
  show "0 \<le> an_inputLatency s" "an_inputLatency s < an_size s"
    using h l c(6) by simp_all
  show "0 < an_hsize s" "an_hsize s < an_size s"
    using c(1) c(4) by simp_all
qed

lemma PVAnal_window_loop:
  assumes sh: "PVAnal_shape s" and md: "0 \<le> md"
  shows "\<exists>fr. for_loop 0 (an_size s) (PVAnal_window_step md) s = Some (s\<lparr>an_inframe := fr\<rparr>) \<and>
           int (length fr) = an_size s"
proof -
  let ?I = "\<lambda>(j::int) t. \<exists>fr. t = s\<lparr>an_inframe := fr\<rparr> \<and> int (length fr) = an_size s"
  note c = PVAnal_shape_cfg[OF sh] and l = PVAnal_shape_len[OF sh]
  have "\<exists>t'. for_loop 0 (an_size s) (PVAnal_window_step md) s = Some t' \<and> ?I (an_size s) t'"
  proof (rule for_loop_inv[where I = ?I and body = "PVAnal_window_step md"])
    show "?I 0 s"
      by (rule exI[of _ "an_inframe s"]) (simp add: l)
    show "0 \<le> an_size s"
      using c(1) by simp
    show "\<exists>t'. PVAnal_window_step md j t = Some t' \<and> ?I (j + 1) t'"
      if j: "0 \<le> j" "j < an_size s" and I: "?I j t" for j t
    proof -
      from I obtain fr where t: "t = s\<lparr>an_inframe := fr\<rparr>" and fr: "int (length fr) = an_size s"
        by blast
      have r: "c_rem (j + md) (an_size s) = Some ((j + md) mod an_size s)"
        using j md c(1) by (intro c_rem_nonneg) simp_all
      have m: "0 \<le> (j + md) mod an_size s" "(j + md) mod an_size s < an_size s"
        using c(1) by simp_all
      have "PVAnal_window_step md j t
              = Some (s\<lparr>an_inframe := fr[nat ((j + md) mod an_size s)
                          := an_input_buffer s ! nat j * an_window s ! nat j]\<rparr>)"
        using j m fr l(1,4) by (simp add: PVAnal_window_step_def t rd_in wr_in r)
      moreover have "int (length (fr[nat ((j + md) mod an_size s)
                          := an_input_buffer s ! nat j * an_window s ! nat j])) = an_size s"
        using fr by simp
      ultimately show ?thesis by blast
    qed
  qed
  then show ?thesis by blast
qed

lemma PVAnal_unpack_loop:
  assumes sh: "PVAnal_shape s"
  shows "\<exists>re im. for_loop 1 (an_hsize s) PVAnal_unpack_step s = Some (s\<lparr>an_real := re, an_imag := im\<rparr>) \<and>
           int (length re) = an_hsize s \<and> int (length im) = an_hsize s"
proof -
  let ?I = "\<lambda>(j::int) t. \<exists>re im. t = s\<lparr>an_real := re, an_imag := im\<rparr> \<and>
              int (length re) = an_hsize s \<and> int (length im) = an_hsize s"
  note c = PVAnal_shape_cfg[OF sh] and l = PVAnal_shape_len[OF sh] and h = PVAnal_hop[OF sh]
  have "\<exists>t'. for_loop 1 (an_hsize s) PVAnal_unpack_step s = Some t' \<and> ?I (an_hsize s) t'"
  proof (rule for_loop_inv[where I = ?I and body = PVAnal_unpack_step])
    show "?I 1 s"
      by (rule exI[of _ "an_real s"], rule exI[of _ "an_imag s"]) (simp add: l)
    show "1 \<le> an_hsize s"
      using h(5) by simp
    show "\<exists>t'. PVAnal_unpack_step j t = Some t' \<and> ?I (j + 1) t'"
      if j: "1 \<le> j" "j < an_hsize s" and I: "?I j t" for j t
    proof -
      from I obtain re im where t: "t = s\<lparr>an_real := re, an_imag := im\<rparr>"
        and re: "int (length re) = an_hsize s" and im: "int (length im) = an_hsize s"
        by blast
      have b: "0 \<le> j" "j < an_size s" "0 \<le> an_size s - j" "an_size s - j < an_size s"
        using j h(6) by simp_all
      have "PVAnal_unpack_step j t
              = Some (s\<lparr>an_real := re[nat j := an_outframe s ! nat j],
                        an_imag := im[nat j := an_outframe s ! nat (an_size s - j)]\<rparr>)"
        using j b re im l(3) by (simp add: PVAnal_unpack_step_def t rd_in wr_in)
      moreover have "int (length (re[nat j := an_outframe s ! nat j])) = an_hsize s"
        "int (length (im[nat j := an_outframe s ! nat (an_size s - j)])) = an_hsize s"
        using re im by simp_all
      ultimately show ?thesis by blast
    qed
  qed
  then show ?thesis by blast
qed

lemma PVAnal_shift_loop:
  assumes sh: "PVAnal_shape s"
  shows "\<exists>ib. for_loop 0 (an_inputLatency s) PVAnal_shift_step s = Some (s\<lparr>an_input_buffer := ib\<rparr>) \<and>
           int (length ib) = an_size s"
proof -
  let ?I = "\<lambda>(j::int) t. \<exists>ib. t = s\<lparr>an_input_buffer := ib\<rparr> \<and> int (length ib) = an_size s"
  note c = PVAnal_shape_cfg[OF sh] and l = PVAnal_shape_len[OF sh] and h = PVAnal_hop[OF sh]
  have "\<exists>t'. for_loop 0 (an_inputLatency s) PVAnal_shift_step s = Some t' \<and> ?I (an_inputLatency s) t'"
  proof (rule for_loop_inv[where I = ?I and body = PVAnal_shift_step])
    show "?I 0 s"
      by (rule exI[of _ "an_input_buffer s"]) (simp add: l)
    show "0 \<le> an_inputLatency s"
      by (rule h(3))
    show "\<exists>t'. PVAnal_shift_step j t = Some t' \<and> ?I (j + 1) t'"
      if j: "0 \<le> j" "j < an_inputLatency s" and I: "?I j t" for j t
    proof -
      from I obtain ib where t: "t = s\<lparr>an_input_buffer := ib\<rparr>" and ib: "int (length ib) = an_size s"
        by blast
      have b: "0 \<le> j + an_hopsize s" "j + an_hopsize s < an_size s" "j < an_size s"
        using j h(1) c(6) by simp_all
      have "PVAnal_shift_step j t
              = Some (s\<lparr>an_input_buffer := ib[nat j := ib ! nat (j + an_hopsize s)]\<rparr>)"
        using j b ib by (simp add: PVAnal_shift_step_def t rd_in wr_in)
      moreover have "int (length (ib[nat j := ib ! nat (j + an_hopsize s)])) = an_size s"
        using ib by simp
      ultimately show ?thesis by blast
    qed
  qed
  then show ?thesis by blast
qed


lemma PVAnal_frame_Some:
  assumes sh: "PVAnal_shape s"
  shows "\<exists>s'. PVAnal_frame fft s = Some s' \<and> PVAnal_shape s' \<and>
           an_incount s' = an_inputLatency s \<and> an_count s' = an_count s \<and>
           an_size s' = an_size s \<and> an_olaps s' = an_olaps s \<and>
           an_bufsize s' = an_bufsize s \<and> an_sr s' = an_sr s \<and>
           an_inputLatency s' = an_inputLatency s \<and> an_hopsize s' = an_hopsize s"
proof -
  let ?s0 = "s\<lparr>an_incount := an_inputLatency s\<rparr>"
  have sh0: "PVAnal_shape ?s0"
    by (rule PVAnal_shape_incount[OF sh])
  note h = PVAnal_hop[OF sh] and oc = PVAnal_shape_oc[OF sh]
  have md: "0 \<le> an_hopsize ?s0 * an_overcount ?s0"
    using h(1) oc(1) by simp
  from PVAnal_window_loop[OF sh0 md] obtain fr where
    w: "for_loop 0 (an_size ?s0) (PVAnal_window_step (an_hopsize ?s0 * an_overcount ?s0)) ?s0
          = Some (?s0\<lparr>an_inframe := fr\<rparr>)"
    and fr: "int (length fr) = an_size ?s0"
    by blast
  let ?s1 = "?s0\<lparr>an_inframe := fr\<rparr>"
  have sh1: "PVAnal_shape ?s1"
    by (rule PVAnal_shape_inframe[OF sh0 fr])
  let ?s2 = "?s1\<lparr>an_outframe := fft_call fft (an_inframe ?s1) (an_outframe ?s1)\<rparr>"
  have sh2: "PVAnal_shape ?s2"
    by (rule PVAnal_shape_outframe[OF sh1]) (simp add: fft_call_def PVAnal_shape_len(3)[OF sh])
  note l2 = PVAnal_shape_len[OF sh2] and h2 = PVAnal_hop[OF sh2]
  let ?s3 = "?s2\<lparr>an_real := (an_real ?s2)[0 := an_outframe ?s2 ! 0],
                    an_imag := (an_imag ?s2)[0 := 0]\<rparr>"
  have u0: "rd (an_outframe ?s2) 0 = Some (an_outframe ?s2 ! 0)"
    "wr (an_real ?s2) 0 (an_outframe ?s2 ! 0) = Some ((an_real ?s2)[0 := an_outframe ?s2 ! 0])"
    "wr (an_imag ?s2) 0 0 = Some ((an_imag ?s2)[0 := 0])"
    using l2(3,5,6) h2(5) PVAnal_shape_cfg(1)[OF sh2] by (simp_all add: rd_def wr_def)
  have sh3: "PVAnal_shape ?s3"
    by (rule PVAnal_shape_real_imag[OF sh2]) (simp_all add: PVAnal_shape_len(5,6)[OF sh])
  from PVAnal_unpack_loop[OF sh3] obtain re im where
    u: "for_loop 1 (an_hsize ?s3) PVAnal_unpack_step ?s3 = Some (?s3\<lparr>an_real := re, an_imag := im\<rparr>)"
    and re: "int (length re) = an_hsize ?s3" and im: "int (length im) = an_hsize ?s3"
    by blast
  let ?s4 = "?s3\<lparr>an_real := re, an_imag := im\<rparr>"
  have sh4: "PVAnal_shape ?s4"
    by (rule PVAnal_shape_real_imag[OF sh3 re im])
  from PVAnal_bins[OF sh4] obtain LP M F where
    b: "for_loop 0 (an_hsize ?s4) PVAnal_bin ?s4
          = Some (?s4\<lparr>an_lastPhase := LP, an_magn := M, an_freq := F\<rparr>)"
    and LP: "length LP = length (an_lastPhase ?s4)"
    and M: "table_ok M (an_olaps ?s4) (an_hsize ?s4)" and F: "table_ok F (an_olaps ?s4) (an_hsize ?s4)"
    by blast
  let ?s5 = "?s4\<lparr>an_lastPhase := LP, an_magn := M, an_freq := F\<rparr>"
  have sh5: "PVAnal_shape ?s5"
    by (rule PVAnal_shape_bins_upd[OF sh4 LP M F])
  from PVAnal_shift_loop[OF sh5] obtain ib where
    f: "for_loop 0 (an_inputLatency ?s5) PVAnal_shift_step ?s5 = Some (?s5\<lparr>an_input_buffer := ib\<rparr>)"
    and ib: "int (length ib) = an_size ?s5"
    by blast
  let ?s6 = "?s5\<lparr>an_input_buffer := ib\<rparr>"
  have sh6: "PVAnal_shape ?s6"
    by (rule PVAnal_shape_input_buffer[OF sh5 ib])
  let ?oc = "if an_overcount ?s6 + 1 \<ge> an_olaps ?s6 then 0 else an_overcount ?s6 + 1"
  let ?s7 = "?s6\<lparr>an_overcount := ?oc\<rparr>"
  have "0 \<le> ?oc" "?oc < an_olaps ?s6"
    using oc PVAnal_shape_cfg(2)[OF sh] by simp_all
  then have sh7: "PVAnal_shape ?s7"
    by (rule PVAnal_shape_overcount[OF sh6])
  have w': "for_loop 0 (an_size s) (PVAnal_window_step (an_hopsize s * an_overcount s)) ?s0 = Some ?s1"
    using w by simp
  have u': "for_loop 1 (an_hsize s) PVAnal_unpack_step ?s3 = Some ?s4"
    using u by simp
  have b': "for_loop 0 (an_hsize s) PVAnal_bin ?s4 = Some ?s5"
    using b by simp
  have f': "for_loop 0 (an_inputLatency s) PVAnal_shift_step ?s5 = Some ?s6"
    using f by simp
  have r: "PVAnal_frame fft s = Some ?s7"
    unfolding PVAnal_frame_def Let_def
    using u0 w' u' b' f' by simp
  show ?thesis
    using sh7 by (intro exI[of _ ?s7]) (simp add: r)
qed


lemma PVAnal_sample_Some:
  assumes wf: "PVAnal_wf s" and i: "0 \<le> i" "i < an_bufsize s" "i < int (length inp)"
  shows "\<exists>s'. PVAnal_sample fft inp i s = Some s' \<and> PVAnal_wf s' \<and>
           an_count s' = (an_count s)[nat i := an_incount s] \<and>
           an_size s' = an_size s \<and> an_olaps s' = an_olaps s \<and>
           an_bufsize s' = an_bufsize s \<and> an_sr s' = an_sr s \<and>
           an_inputLatency s' = an_inputLatency s \<and> an_hopsize s' = an_hopsize s"
proof -
  from wf have sh: "PVAnal_shape s" and ic: "an_inputLatency s \<le> an_incount s" "an_incount s < an_size s"
    by (simp_all add: PVAnal_wf_def)
  note h = PVAnal_hop[OF sh] and l = PVAnal_shape_len[OF sh] and c = PVAnal_shape_cfg[OF sh]
  let ?ib = "(an_input_buffer s)[nat (an_incount s) := inp ! nat i]"
  let ?cnt = "(an_count s)[nat i := an_incount s]"
  let ?s1 = "s\<lparr>an_input_buffer := ?ib, an_count := ?cnt, an_incount := an_incount s + 1\<rparr>"
  have a: "rd inp i = Some (inp ! nat i)"
    "wr (an_input_buffer s) (an_incount s) (inp ! nat i) = Some ?ib"
    "wr (an_count s) i (an_incount s) = Some ?cnt"
    using i ic h(3) l(1) c(10) by (simp_all add: rd_def wr_def)
  have sh1: "PVAnal_shape ?s1"
    by (rule PVAnal_shape_sample[OF sh]) (simp_all add: l(1))
  show ?thesis
  proof (cases "an_incount s + 1 \<ge> an_size s")
    case True
    from PVAnal_frame_Some[OF sh1, of fft] obtain s' where
      f: "PVAnal_frame fft ?s1 = Some s'" and sh': "PVAnal_shape s'"
      and r: "an_incount s' = an_inputLatency ?s1" "an_count s' = an_count ?s1"
        "an_size s' = an_size ?s1" "an_olaps s' = an_olaps ?s1" "an_bufsize s' = an_bufsize ?s1"
        "an_sr s' = an_sr ?s1" "an_inputLatency s' = an_inputLatency ?s1"
        "an_hopsize s' = an_hopsize ?s1"
      by blast
    have "PVAnal_sample fft inp i s = Some s'"
      using a f True by (simp add: PVAnal_sample_def Let_def)
    moreover have "PVAnal_wf s'"
      using sh' r h(4) by (simp add: PVAnal_wf_def)
    ultimately show ?thesis
      using r by simp
  next
    case False
    have "PVAnal_sample fft inp i s = Some ?s1"
      using a False by (simp add: PVAnal_sample_def Let_def)
    moreover have "PVAnal_wf ?s1"
      using sh1 ic False by (simp add: PVAnal_wf_def)
    ultimately show ?thesis
      by simp
  qed
qed

lemma count_ok_iff:
  assumes "int (length cnt) = bufsize"
  shows "list_all P (take (nat bufsize) cnt) \<longleftrightarrow> (\<forall>i. 0 \<le> i \<and> i < bufsize \<longrightarrow> P (cnt ! nat i))"
proof
  assume a: "list_all P (take (nat bufsize) cnt)"
  show "\<forall>i. 0 \<le> i \<and> i < bufsize \<longrightarrow> P (cnt ! nat i)"
  proof (intro allI impI)
    fix i assume "0 \<le> i \<and> i < bufsize"
    then have "nat i < length (take (nat bufsize) cnt)"
      using assms by (auto simp: nat_less_iff)
    with a show "P (cnt ! nat i)"
      by (auto simp: list_all_length)
  qed
next
  assume a: "\<forall>i. 0 \<le> i \<and> i < bufsize \<longrightarrow> P (cnt ! nat i)"
  show "list_all P (take (nat bufsize) cnt)"
    unfolding list_all_length
  proof (intro allI impI)
    fix n assume "n < length (take (nat bufsize) cnt)"
    then have "0 \<le> int n \<and> int n < bufsize"
      using assms by simp
    with a have "P (cnt ! nat (int n))" by blast
    then show "P (take (nat bufsize) cnt ! n)"
      using \<open>n < length (take (nat bufsize) cnt)\<close> by simp
  qed
qed

lemma PVAnal_process_Some:
  assumes wf: "PVAnal_wf s" and inp: "an_bufsize s \<le> int (length inp)"
  shows "\<exists>s'. PVAnal_process fft inp s = Some s' \<and> PVAnal_wf s' \<and> PVAnal_count_ok s' \<and>
           an_size s' = an_size s \<and> an_olaps s' = an_olaps s \<and>
           an_bufsize s' = an_bufsize s \<and> an_sr s' = an_sr s"
proof -
  let ?L = "an_inputLatency s"
  let ?I = "\<lambda>j t. PVAnal_wf t \<and> an_size t = an_size s \<and> an_olaps t = an_olaps s \<and>
              an_bufsize t = an_bufsize s \<and> an_sr t = an_sr s \<and> an_inputLatency t = ?L \<and>
              (\<forall>i. 0 \<le> i \<and> i < j \<longrightarrow> ?L \<le> an_count t ! nat i \<and> an_count t ! nat i \<le> an_size s - 1)"
  from wf have sh: "PVAnal_shape s"
    by (simp add: PVAnal_wf_def)
  have "\<exists>t'. for_loop 0 (an_bufsize s) (PVAnal_sample fft inp) s = Some t' \<and> ?I (an_bufsize s) t'"
  proof (rule for_loop_inv[where I = ?I and body = "PVAnal_sample fft inp"])
    show "?I 0 s"
      using wf by simp
    show "0 \<le> an_bufsize s"
      by (rule PVAnal_shape_cfg(9)[OF sh])
    show "\<exists>t'. PVAnal_sample fft inp j t = Some t' \<and> ?I (j + 1) t'"
      if j: "0 \<le> j" "j < an_bufsize s" and I: "?I j t" for j t
    proof -
      from I have wt: "PVAnal_wf t" and e: "an_size t = an_size s" "an_olaps t = an_olaps s"
        "an_bufsize t = an_bufsize s" "an_sr t = an_sr s" "an_inputLatency t = ?L"
        and c: "\<forall>i. 0 \<le> i \<and> i < j \<longrightarrow> ?L \<le> an_count t ! nat i \<and> an_count t ! nat i \<le> an_size s - 1"
        by simp_all
      from wt have st: "PVAnal_shape t" and ic: "an_inputLatency t \<le> an_incount t" "an_incount t < an_size t"
        by (simp_all add: PVAnal_wf_def)
      have jl: "nat j < length (an_count t)"
        using j PVAnal_shape_cfg(10)[OF st] e(3) by simp
      from PVAnal_sample_Some[OF wt, of j inp fft] j inp e(3) obtain t' where
        s': "PVAnal_sample fft inp j t = Some t'" and wt': "PVAnal_wf t'"
        and r: "an_count t' = (an_count t)[nat j := an_incount t]"
          "an_size t' = an_size t" "an_olaps t' = an_olaps t" "an_bufsize t' = an_bufsize t"
          "an_sr t' = an_sr t" "an_inputLatency t' = an_inputLatency t"
        by auto
      have "?L \<le> an_count t' ! nat i \<and> an_count t' ! nat i \<le> an_size s - 1"
        if i: "0 \<le> i \<and> i < j + 1" for i
      proof (cases "i = j")
        case True
        then show ?thesis
          using jl ic e by (simp add: r(1))
      next
        case False
        then have "nat j \<noteq> nat i" using i j by linarith
        moreover have "0 \<le> i \<and> i < j" using i False by simp
        ultimately show ?thesis
          using c by (simp add: r(1))
      qed
      then show ?thesis
        using s' wt' r e by simp
    qed
  qed
  then obtain s' where p: "for_loop 0 (an_bufsize s) (PVAnal_sample fft inp) s = Some s'"
    and wf': "PVAnal_wf s'" and e: "an_size s' = an_size s" "an_olaps s' = an_olaps s"
      "an_bufsize s' = an_bufsize s" "an_sr s' = an_sr s" "an_inputLatency s' = ?L"
    and c: "\<forall>i. 0 \<le> i \<and> i < an_bufsize s \<longrightarrow>
              ?L \<le> an_count s' ! nat i \<and> an_count s' ! nat i \<le> an_size s - 1"
    by blast
  from wf' have "PVAnal_shape s'"
    by (simp add: PVAnal_wf_def)
  then have "int (length (an_count s')) = an_bufsize s'"
    by (rule PVAnal_shape_cfg(10))
  then have "PVAnal_count_ok s'"
    unfolding PVAnal_count_ok_def using c e by (subst count_ok_iff) simp_all
  with p wf' e show ?thesis
    by (simp add: PVAnal_process_def)
qed

lemma table_ok_alloc: "0 \<le> olaps \<Longrightarrow> 0 \<le> hsize \<Longrightarrow> table_ok (alloc olaps (alloc hsize 0)) olaps hsize"
  by (simp add: table_ok_def alloc_def)

lemma PVAnal_realloc_wf:
  assumes cfg: "2 \<le> an_size A" "0 < an_olaps A" "an_olaps A \<le> an_size A"
    and buf: "0 \<le> an_bufsize A" "int (length (an_count A)) = an_bufsize A"
  shows "\<exists>A'. PVAnal_realloc_memories gw A = Some A' \<and> PVAnal_wf A' \<and> PVAnal_count_ok A' \<and>
           (\<forall>i. 0 \<le> i \<and> i < an_bufsize A \<longrightarrow> an_count A' ! nat i = an_inputLatency A') \<and>
           an_size A' = an_size A \<and> an_olaps A' = an_olaps A \<and> an_bufsize A' = an_bufsize A \<and>
           an_sr A' = an_sr A"
proof -
  let ?hs = "an_size A div 2" and ?hop = "an_size A div an_olaps A"
  let ?L = "an_size A - ?hop"
  have d2: "c_div (an_size A) 2 = Some ?hs"
    using cfg(1) by (intro c_div_nonneg) simp_all
  have dol: "c_div (an_size A) (an_olaps A) = Some ?hop"
    using cfg(1,2) by (intro c_div_nonneg) simp_all
  have hop: "0 < ?hop"
    using cfg by (simp add: pos_imp_zdiv_pos_iff)
  have "?hop \<le> an_size A div 1"
    using cfg(1,2) by (intro zdiv_mono2) simp_all
  then have hl: "?hop \<le> an_size A"
    by simp
  have hs: "0 \<le> ?hs"
    using cfg(1) by simp
  from fill_count_Some[of "an_bufsize A" "an_count A" ?L] buf obtain c where
    c: "fill_count (an_count A) (an_bufsize A) ?L = Some c" "length c = length (an_count A)"
      "\<forall>i. 0 \<le> i \<and> i < an_bufsize A \<longrightarrow> c ! nat i = ?L"
    by auto
  let ?A' = "A\<lparr> an_hsize := ?hs, an_hopsize := ?hop,
               an_factor := an_sr A / (real_of_int ?hop * TWOPI),
               an_scale := TWOPI * real_of_int ?hop / real_of_int (an_size A),
               an_inputLatency := ?L, an_incount := ?L, an_overcount := 0,
               an_input_buffer := alloc (an_size A) 0, an_inframe := alloc (an_size A) 0,
               an_outframe := alloc (an_size A) 0, an_lastPhase := alloc ?hs 0,
               an_real := alloc ?hs 0, an_imag := alloc ?hs 0,
               an_magn := alloc (an_olaps A) (alloc ?hs 0),
               an_freq := alloc (an_olaps A) (alloc ?hs 0),
               an_window := gen_window gw (an_size A) (an_wintype A), an_count := c \<rparr>"
  have r: "PVAnal_realloc_memories gw A = Some ?A'"
    by (simp add: PVAnal_realloc_memories_def d2 dol c(1) Let_def)
  have t: "table_ok (alloc (an_olaps A) (alloc ?hs 0)) (an_olaps A) ?hs"
    using cfg(2) hs by (intro table_ok_alloc) simp_all
  have sh: "PVAnal_shape ?A'"
    unfolding PVAnal_shape_def using cfg buf c(2) t
    by (simp add: alloc_def gen_window_def)
  have wf: "PVAnal_wf ?A'"
    using sh hop hl cfg(1) by (simp add: PVAnal_wf_def)
  have "list_all (\<lambda>v. ?L \<le> v \<and> v \<le> an_size A - 1) (take (nat (an_bufsize A)) c)"
    using c(2,3) buf hop by (subst count_ok_iff[where bufsize = "an_bufsize A"]) simp_all
  then have ok: "PVAnal_count_ok ?A'"
    by (simp add: PVAnal_count_ok_def)
  show ?thesis
    using r wf ok c(3) by (intro exI[of _ ?A']) simp
qed


section \<open>The synthesizer's configuration\<close>

lemma PVSynth_shape_cfg:
  assumes "PVSynth_shape s"
  shows "2 \<le> sy_size s" "0 < sy_olaps s" "sy_olaps s \<le> sy_size s"
    "sy_size s div 2 = sy_hsize s" "sy_size s div sy_olaps s = sy_hopsize s"
    "sy_size s - sy_hopsize s = sy_inputLatency s"
    "0 \<le> sy_overcount s" "sy_overcount s < sy_olaps s"
    "0 \<le> sy_bufsize s" "int (length (sy_data s)) = sy_bufsize s"
  using assms unfolding PVSynth_shape_def by blast+

lemma PVSynth_shape_len:
  assumes "PVSynth_shape s"
  shows "int (length (sy_output_buffer s)) = sy_size s" "int (length (sy_inframe s)) = sy_size s"
    "int (length (sy_outframe s)) = sy_size s" "int (length (sy_window s)) = sy_size s"
    "int (length (sy_real s)) = sy_hsize s" "int (length (sy_imag s)) = sy_hsize s"
    "int (length (sy_sumPhase s)) = sy_hsize s"
    "int (length (sy_outputAccum s)) = sy_size s + sy_hopsize s"
  using assms unfolding PVSynth_shape_def by blast+

lemma PVSynth_realloc_shape:
  assumes cfg: "2 \<le> sy_size S" "0 < sy_olaps S" "sy_olaps S \<le> sy_size S"
    and buf: "0 \<le> sy_bufsize S" "int (length (sy_data S)) = sy_bufsize S"
  shows "\<exists>S'. PVSynth_realloc_memories gw S = Some S' \<and> PVSynth_shape S' \<and> PVSynth_top_zero S' \<and>
           sy_size S' = sy_size S \<and> sy_olaps S' = sy_olaps S \<and> sy_bufsize S' = sy_bufsize S \<and>
           sy_data S' = sy_data S \<and> sy_sr S' = sy_sr S"
proof -
  let ?hs = "sy_size S div 2" and ?hop = "sy_size S div sy_olaps S"
  have d2: "c_div (sy_size S) 2 = Some ?hs"
    using cfg(1) by (intro c_div_nonneg) simp_all
  have dol: "c_div (sy_size S) (sy_olaps S) = Some ?hop"
    using cfg(1,2) by (intro c_div_nonneg) simp_all
  have hop: "0 < ?hop"
    using cfg by (simp add: pos_imp_zdiv_pos_iff)
  have hs: "0 \<le> ?hs"
    using cfg(1) by simp
  let ?S' = "S\<lparr> sy_hsize := ?hs, sy_hopsize := ?hop,
               sy_factor := real_of_int ?hop * TWOPI / sy_sr S,
               sy_scale := sy_sr S / real_of_int (sy_size S),
               sy_inputLatency := sy_size S - ?hop, sy_overcount := 0,
               sy_ampscl := 1 / sqrt (real_of_int (sy_olaps S)),
               sy_output_buffer := alloc (sy_size S) 0, sy_inframe := alloc (sy_size S) 0,
               sy_outframe := alloc (sy_size S) 0, sy_sumPhase := alloc ?hs 0,
               sy_real := alloc ?hs 0, sy_imag := alloc ?hs 0,
               sy_outputAccum := alloc (sy_size S + ?hop) 0,
               sy_window := gen_window gw (sy_size S) (sy_wintype S) \<rparr>"
  have r: "PVSynth_realloc_memories gw S = Some ?S'"
    by (simp add: PVSynth_realloc_memories_def d2 dol)
  have sh: "PVSynth_shape ?S'"
    unfolding PVSynth_shape_def using cfg buf hop hs
    by (simp add: alloc_def gen_window_def)
  have tz: "PVSynth_top_zero ?S'"
    by (simp add: PVSynth_top_zero_def alloc_def list_all_length)
  show ?thesis
    using r sh tz by (intro exI[of _ ?S']) simp
qed

lemma PVSynth_adapt_Some:
  assumes sh: "PVSynth_shape S"
    and bus: "2 \<le> pv_fftsize inp" "0 < pv_olaps inp" "pv_olaps inp \<le> pv_fftsize inp"
  shows "\<exists>S1. PVSynth_adapt gw inp S = Some S1 \<and> PVSynth_shape S1 \<and>
           sy_size S1 = pv_fftsize inp \<and> sy_olaps S1 = pv_olaps inp \<and>
           sy_bufsize S1 = sy_bufsize S \<and>
           (PVSynth_top_zero S \<longrightarrow> PVSynth_top_zero S1)"
proof (cases "sy_size S \<noteq> pv_fftsize inp \<or> sy_olaps S \<noteq> pv_olaps inp")
  case True
  let ?S0 = "S\<lparr>sy_size := pv_fftsize inp, sy_olaps := pv_olaps inp\<rparr>"
  note c = PVSynth_shape_cfg[OF sh]
  from PVSynth_realloc_shape[of ?S0 gw] bus c(9,10) obtain S1 where
    "PVSynth_realloc_memories gw ?S0 = Some S1" "PVSynth_shape S1" "PVSynth_top_zero S1"
    "sy_size S1 = sy_size ?S0" "sy_olaps S1 = sy_olaps ?S0" "sy_bufsize S1 = sy_bufsize ?S0"
    by auto
  then show ?thesis
    using True by (intro exI[of _ S1]) (simp add: PVSynth_adapt_def)
next
  case False
  then show ?thesis
    using sh by (intro exI[of _ S]) (simp add: PVSynth_adapt_def)
qed

text \<open>
  Claim C9, amended. For every analyzer whose size is at least two and whose number of
  overlaps lies between one and the size (every configuration with a positive hop size; in
  particular every power-of-two size and olaps with \<open>2 * olaps \<le> size\<close>):
  \<^item> \<^verbatim>\<open>PVAnal_realloc_memories\<close> returns, sets every entry of \<open>count\<close> to \<open>inputLatency\<close>,
    and leaves a state in which \<open>inputLatency \<le> count[i] \<le> size - 1\<close> for every sample
    \<open>i\<close> of the block;
  \<^item> from any such state \<^verbatim>\<open>PVAnal_process\<close> on a block of \<open>bufsize\<close> samples returns, keeps
    size and olaps, and again leaves \<open>inputLatency \<le> count[i] \<le> size - 1\<close> for every \<open>i\<close>;
  \<^item> a configured synthesizer that reads the analyzer's bus has, after its adaptation to
    the bus, the analyzer's size, hop size and input latency, so that its read index
    \<open>count[i] - inputLatency\<close> lies in \<open>[0, hopsize)\<close>, and \<open>count[i] = size - 1\<close> holds
    exactly when \<open>count[i] \<ge> size - 1\<close> does.
\<close>

theorem C9_count_bounds:
  assumes cfg: "2 \<le> an_size A" "0 < an_olaps A" "an_olaps A \<le> an_size A"
    and buf: "0 \<le> an_bufsize A" "int (length (an_count A)) = an_bufsize A"
  shows "(\<exists>A'. PVAnal_realloc_memories gw A = Some A' \<and> PVAnal_wf A' \<and> PVAnal_count_ok A' \<and>
            (\<forall>i. 0 \<le> i \<and> i < an_bufsize A \<longrightarrow> an_count A' ! nat i = an_inputLatency A') \<and>
            an_size A' = an_size A \<and> an_olaps A' = an_olaps A \<and> an_bufsize A' = an_bufsize A) \<and>
         (\<forall>s fft inp. PVAnal_wf s \<and> an_bufsize s \<le> int (length inp) \<longrightarrow>
            (\<exists>s'. PVAnal_process fft inp s = Some s' \<and> PVAnal_wf s' \<and> PVAnal_count_ok s' \<and>
               an_size s' = an_size s \<and> an_olaps s' = an_olaps s)) \<and>
         (\<forall>s S gw'. PVAnal_wf s \<and> PVAnal_count_ok s \<and> PVSynth_shape S \<longrightarrow>
            (\<exists>S1. PVSynth_adapt gw' (PVAnal_pv_stream s) S = Some S1 \<and>
               sy_size S1 = an_size s \<and> sy_hopsize S1 = an_hopsize s \<and>
               sy_inputLatency S1 = an_inputLatency s \<and>
               (\<forall>i. 0 \<le> i \<and> i < an_bufsize s \<longrightarrow>
                  an_inputLatency s \<le> pv_count (PVAnal_pv_stream s) ! nat i \<and>
                  pv_count (PVAnal_pv_stream s) ! nat i \<le> an_size s - 1 \<and>
                  0 \<le> pv_count (PVAnal_pv_stream s) ! nat i - sy_inputLatency S1 \<and>
                  pv_count (PVAnal_pv_stream s) ! nat i - sy_inputLatency S1 < sy_hopsize S1 \<and>
                  (pv_count (PVAnal_pv_stream s) ! nat i = sy_size S1 - 1
                     \<longleftrightarrow> pv_count (PVAnal_pv_stream s) ! nat i \<ge> sy_size S1 - 1))))"
proof (intro conjI allI impI)
  from PVAnal_realloc_wf[OF cfg buf, of gw]
  show "\<exists>A'. PVAnal_realloc_memories gw A = Some A' \<and> PVAnal_wf A' \<and> PVAnal_count_ok A' \<and>
            (\<forall>i. 0 \<le> i \<and> i < an_bufsize A \<longrightarrow> an_count A' ! nat i = an_inputLatency A') \<and>
            an_size A' = an_size A \<and> an_olaps A' = an_olaps A \<and> an_bufsize A' = an_bufsize A"
    by blast
next
  fix s :: PVAnal and fft :: "MYFLT list \<Rightarrow> nat \<Rightarrow> MYFLT" and inp :: "MYFLT list"
  assume "PVAnal_wf s \<and> an_bufsize s \<le> int (length inp)"
  then have "PVAnal_wf s" "an_bufsize s \<le> int (length inp)" by simp_all
  from PVAnal_process_Some[OF this, of fft]
  show "\<exists>s'. PVAnal_process fft inp s = Some s' \<and> PVAnal_wf s' \<and> PVAnal_count_ok s' \<and>
               an_size s' = an_size s \<and> an_olaps s' = an_olaps s"
    by blast
next
  fix s :: PVAnal and S :: PVSynth and gw' :: "int \<Rightarrow> int \<Rightarrow> nat \<Rightarrow> MYFLT"
  assume a: "PVAnal_wf s \<and> PVAnal_count_ok s \<and> PVSynth_shape S"
  then have sh: "PVAnal_shape s" and ok: "PVAnal_count_ok s" and ss: "PVSynth_shape S"
    by (simp_all add: PVAnal_wf_def)
  note c = PVAnal_shape_cfg[OF sh]
  let ?inp = "PVAnal_pv_stream s"
  have bus: "2 \<le> pv_fftsize ?inp" "0 < pv_olaps ?inp" "pv_olaps ?inp \<le> pv_fftsize ?inp"
    using c(1-3) by (simp_all add: PVAnal_pv_stream_def)
  from PVSynth_adapt_Some[OF ss bus, of gw'] obtain S1 where
    ad: "PVSynth_adapt gw' ?inp S = Some S1" and s1: "PVSynth_shape S1"
    and e: "sy_size S1 = pv_fftsize ?inp" "sy_olaps S1 = pv_olaps ?inp"
    by blast
  note c1 = PVSynth_shape_cfg[OF s1]
  have e': "sy_size S1 = an_size s" "sy_olaps S1 = an_olaps s"
    using e by (simp_all add: PVAnal_pv_stream_def)
  have hop: "sy_hopsize S1 = an_hopsize s"
    using c1(5) c(5) e' by simp
  have lat: "sy_inputLatency S1 = an_inputLatency s"
    using c1(6) c(6) e' hop by simp
  have cnt: "an_inputLatency s \<le> an_count s ! nat i \<and> an_count s ! nat i \<le> an_size s - 1"
    if "0 \<le> i \<and> i < an_bufsize s" for i
    using ok that unfolding PVAnal_count_ok_def
    by (subst (asm) count_ok_iff[OF c(10)]) blast
  have "an_inputLatency s \<le> pv_count ?inp ! nat i \<and>
        pv_count ?inp ! nat i \<le> an_size s - 1 \<and>
        0 \<le> pv_count ?inp ! nat i - sy_inputLatency S1 \<and>
        pv_count ?inp ! nat i - sy_inputLatency S1 < sy_hopsize S1 \<and>
        (pv_count ?inp ! nat i = sy_size S1 - 1 \<longleftrightarrow> pv_count ?inp ! nat i \<ge> sy_size S1 - 1)"
    if "0 \<le> i \<and> i < an_bufsize s" for i
    using cnt[OF that] c(6) by (auto simp: PVAnal_pv_stream_def e' hop lat)
  with ad e' hop lat
  show "\<exists>S1. PVSynth_adapt gw' ?inp S = Some S1 \<and>
               sy_size S1 = an_size s \<and> sy_hopsize S1 = an_hopsize s \<and>
               sy_inputLatency S1 = an_inputLatency s \<and>
               (\<forall>i. 0 \<le> i \<and> i < an_bufsize s \<longrightarrow>
                  an_inputLatency s \<le> pv_count ?inp ! nat i \<and>
                  pv_count ?inp ! nat i \<le> an_size s - 1 \<and>
                  0 \<le> pv_count ?inp ! nat i - sy_inputLatency S1 \<and>
                  pv_count ?inp ! nat i - sy_inputLatency S1 < sy_hopsize S1 \<and>
                  (pv_count ?inp ! nat i = sy_size S1 - 1
                     \<longleftrightarrow> pv_count ?inp ! nat i \<ge> sy_size S1 - 1))"
    by (intro exI[of _ S1]) simp
qed


theorem C9_count_bounds_witness:
  "2 \<le> an_size ex_anal0 \<and> 0 < an_olaps ex_anal0 \<and> an_olaps ex_anal0 \<le> an_size ex_anal0 \<and>
   0 \<le> an_bufsize ex_anal0 \<and> int (length (an_count ex_anal0)) = an_bufsize ex_anal0 \<and>
   (\<exists>A'. PVAnal_realloc_memories ex_gw ex_anal0 = Some A' \<and> PVAnal_count_ok A' \<and>
      an_inputLatency A' = 2 \<and> an_count A' ! 0 = 2 \<and> an_count A' ! 1 = 2 \<and>
      (\<exists>s'. PVAnal_process ex_fft [1 / 10, 1 / 5] A' = Some s' \<and> PVAnal_count_ok s'))"
proof -
  have h: "2 \<le> an_size ex_anal0" "0 < an_olaps ex_anal0" "an_olaps ex_anal0 \<le> an_size ex_anal0"
    "0 \<le> an_bufsize ex_anal0" "int (length (an_count ex_anal0)) = an_bufsize ex_anal0"
    by (simp_all add: ex_anal0_def)
  note t = C9_count_bounds[OF h, of ex_gw]
  from t obtain A' where
    r: "PVAnal_realloc_memories ex_gw ex_anal0 = Some A'" and wf: "PVAnal_wf A'"
    and ok: "PVAnal_count_ok A'"
    and c: "\<forall>i. 0 \<le> i \<and> i < an_bufsize ex_anal0 \<longrightarrow> an_count A' ! nat i = an_inputLatency A'"
    and e: "an_size A' = an_size ex_anal0" "an_olaps A' = an_olaps ex_anal0"
      "an_bufsize A' = an_bufsize ex_anal0"
    by blast
  from wf have sh: "PVAnal_shape A'"
    by (simp add: PVAnal_wf_def)
  have "an_size A' div an_olaps A' = an_hopsize A'" "an_size A' - an_hopsize A' = an_inputLatency A'"
    by (rule PVAnal_shape_cfg[OF sh])+
  then have L: "an_inputLatency A' = 2"
    unfolding e by (simp add: ex_anal0_def)
  from c[rule_format, of 0] c[rule_format, of 1] L
  have c01: "an_count A' ! 0 = 2" "an_count A' ! 1 = 2"
    by (simp_all add: ex_anal0_def)
  have "an_bufsize A' \<le> int (length [1 / 10, 1 / 5 :: MYFLT])"
    unfolding e by (simp add: ex_anal0_def)
  with t wf obtain s' where
    "PVAnal_process ex_fft [1 / 10, 1 / 5] A' = Some s'" "PVAnal_count_ok s'"
    by blast
  with h r ok L c01 show ?thesis
    by blast
qed

text \<open>
  Claim C9 as stated, for every analyzer, fails for \<open>size = 2\<close> and \<open>olaps = 4\<close>, which
  \<^verbatim>\<open>PVAnal_new\<close> accepts without a diagnostic: the hop size is \<open>2 / 4 = 0\<close>, the input
  latency is 2, and every entry of \<open>count\<close> is 2, above \<open>size - 1 = 1\<close>.
\<close>

theorem C9_size_below_olaps_counterexample:
  "\<exists>A'. PVAnal_new ex_gw 44100 2 2 4 2 = Some ([], A') \<and> an_size A' = 2 \<and> an_olaps A' = 4 \<and>
      an_hopsize A' = 0 \<and> an_inputLatency A' = 2 \<and> an_count A' ! 0 = 2 \<and>
      \<not> an_count A' ! 0 \<le> an_size A' - 1"
proof -
  have p: "isPowerOfTwo 2"
    by (simp add: isPowerOfTwo_def wrap_int_def)
  have d: "c_div 2 2 = Some 1" "c_div 2 4 = Some 0"
    by (simp_all add: c_div_def INT_MIN_def)
  obtain c where c: "fill_count (alloc 2 0) 2 2 = Some c" "c ! nat 0 = 2"
    using fill_count_Some[of 2 "alloc 2 0" 2] by (auto simp: alloc_def)
  show ?thesis
    using c(2) by (simp add: PVAnal_new_def snap_pow2_def p PVAnal_realloc_memories_def d c(1))
qed

section \<open>The synthesizer on a block\<close>

lemma PVSynth_hop:
  assumes "PVSynth_shape s"
  shows "0 < sy_hopsize s" "sy_hopsize s \<le> sy_size s" "0 \<le> sy_inputLatency s"
    "sy_inputLatency s < sy_size s" "0 < sy_hsize s" "sy_hsize s < sy_size s"
proof -
  note c = PVSynth_shape_cfg[OF assms]
  have "0 < sy_size s div sy_olaps s"
    using c(1-3) by (simp add: pos_imp_zdiv_pos_iff)
  then show h: "0 < sy_hopsize s"
    by (simp add: c(5))
  have "sy_size s div sy_olaps s \<le> sy_size s div 1"
    using c(1,2) by (intro zdiv_mono2) simp_all
  then show l: "sy_hopsize s \<le> sy_size s"
    by (simp add: c(5))
  show "0 \<le> sy_inputLatency s" "sy_inputLatency s < sy_size s"
    using h l c(6) by simp_all
  show "0 < sy_hsize s" "sy_hsize s < sy_size s"
    using c(1) c(4) by simp_all
qed

lemma PVSynth_shape_bins_upd:
  "PVSynth_shape s \<Longrightarrow> int (length sp) = sy_hsize s \<Longrightarrow> int (length re) = sy_hsize s
     \<Longrightarrow> int (length im) = sy_hsize s
     \<Longrightarrow> PVSynth_shape (s\<lparr>sy_sumPhase := sp, sy_real := re, sy_imag := im\<rparr>)"
  unfolding PVSynth_shape_def by simp

lemma PVSynth_shape_inframe:
  "PVSynth_shape s \<Longrightarrow> int (length fr) = sy_size s \<Longrightarrow> PVSynth_shape (s\<lparr>sy_inframe := fr\<rparr>)"
  unfolding PVSynth_shape_def by simp

lemma PVSynth_shape_outframe:
  "PVSynth_shape s \<Longrightarrow> int (length fr) = sy_size s \<Longrightarrow> PVSynth_shape (s\<lparr>sy_outframe := fr\<rparr>)"
  unfolding PVSynth_shape_def by simp

lemma PVSynth_shape_outputAccum:
  "PVSynth_shape s \<Longrightarrow> length ac = length (sy_outputAccum s) \<Longrightarrow> PVSynth_shape (s\<lparr>sy_outputAccum := ac\<rparr>)"
  unfolding PVSynth_shape_def by simp

lemma PVSynth_shape_output_buffer:
  "PVSynth_shape s \<Longrightarrow> int (length ob) = sy_size s \<Longrightarrow> PVSynth_shape (s\<lparr>sy_output_buffer := ob\<rparr>)"
  unfolding PVSynth_shape_def by simp

lemma PVSynth_shape_data:
  "PVSynth_shape s \<Longrightarrow> length d = length (sy_data s) \<Longrightarrow> PVSynth_shape (s\<lparr>sy_data := d\<rparr>)"
  unfolding PVSynth_shape_def by simp

lemma PVSynth_shape_overcount:
  "PVSynth_shape s \<Longrightarrow> 0 \<le> c \<Longrightarrow> c < sy_olaps s \<Longrightarrow> PVSynth_shape (s\<lparr>sy_overcount := c\<rparr>)"
  unfolding PVSynth_shape_def by simp

lemma PVSynth_bins_loop:
  assumes sh: "PVSynth_shape s"
    and tm: "table_ok (pv_magn inp) (sy_olaps s) (sy_hsize s)"
    and tf: "table_ok (pv_freq inp) (sy_olaps s) (sy_hsize s)"
  shows "\<exists>sp re im. for_loop 0 (sy_hsize s) (PVSynth_bin inp) s
            = Some (s\<lparr>sy_sumPhase := sp, sy_real := re, sy_imag := im\<rparr>) \<and>
           int (length sp) = sy_hsize s \<and> int (length re) = sy_hsize s \<and> int (length im) = sy_hsize s"
proof -
  let ?I = "\<lambda>(j::int) t. \<exists>sp re im. t = s\<lparr>sy_sumPhase := sp, sy_real := re, sy_imag := im\<rparr> \<and>
           int (length sp) = sy_hsize s \<and> int (length re) = sy_hsize s \<and> int (length im) = sy_hsize s"
  note c = PVSynth_shape_cfg[OF sh] and l = PVSynth_shape_len[OF sh] and h = PVSynth_hop[OF sh]
  have "\<exists>t'. for_loop 0 (sy_hsize s) (PVSynth_bin inp) s = Some t' \<and> ?I (sy_hsize s) t'"
  proof (rule for_loop_inv[where I = ?I and body = "PVSynth_bin inp"])
    show "?I 0 s"
      by (rule exI[of _ "sy_sumPhase s"], rule exI[of _ "sy_real s"], rule exI[of _ "sy_imag s"])
         (simp add: l)
    show "0 \<le> sy_hsize s"
      using h(5) by simp
    show "\<exists>t'. PVSynth_bin inp j t = Some t' \<and> ?I (j + 1) t'"
      if j: "0 \<le> j" "j < sy_hsize s" and I: "?I j t" for j t
    proof -
      from I obtain sp re im where t: "t = s\<lparr>sy_sumPhase := sp, sy_real := re, sy_imag := im\<rparr>"
        and sp: "int (length sp) = sy_hsize s" and re: "int (length re) = sy_hsize s"
        and im: "int (length im) = sy_hsize s"
        by blast
      have m: "rd2 (pv_magn inp) (sy_overcount t) j = Some (pv_magn inp ! nat (sy_overcount s) ! nat j)"
        "rd2 (pv_freq inp) (sy_overcount t) j = Some (pv_freq inp ! nat (sy_overcount s) ! nat j)"
        using rd2_in[OF tm c(7,8) j] rd2_in[OF tf c(7,8) j] by (simp_all add: t)
      have k: "j < int (length (sy_sumPhase t))" "j < int (length (sy_real t))"
        "j < int (length (sy_imag t))"
        using j sp re im by (simp_all add: t)
      from PVSynth_bin_Some[OF j(1) k m]
      obtain sp' re' im' where
        b: "PVSynth_bin inp j t = Some (t\<lparr>sy_sumPhase := sp', sy_real := re', sy_imag := im'\<rparr>)"
        and n: "length sp' = length (sy_sumPhase t)" "length re' = length (sy_real t)"
          "length im' = length (sy_imag t)"
        by simp
      have "PVSynth_bin inp j t = Some (s\<lparr>sy_sumPhase := sp', sy_real := re', sy_imag := im'\<rparr>)"
        using b by (simp add: t)
      moreover have "int (length sp') = sy_hsize s" "int (length re') = sy_hsize s"
        "int (length im') = sy_hsize s"
        using n sp re im by (simp_all add: t)
      ultimately show ?thesis by blast
    qed
  qed
  then show ?thesis by blast
qed

lemma PVSynth_pack_loop:
  assumes sh: "PVSynth_shape s"
  shows "\<exists>fr. for_loop 1 (sy_hsize s) PVSynth_pack_step s = Some (s\<lparr>sy_inframe := fr\<rparr>) \<and>
           int (length fr) = sy_size s"
proof -
  let ?I = "\<lambda>(j::int) t. \<exists>fr. t = s\<lparr>sy_inframe := fr\<rparr> \<and> int (length fr) = sy_size s"
  note c = PVSynth_shape_cfg[OF sh] and l = PVSynth_shape_len[OF sh] and h = PVSynth_hop[OF sh]
  have "\<exists>t'. for_loop 1 (sy_hsize s) PVSynth_pack_step s = Some t' \<and> ?I (sy_hsize s) t'"
  proof (rule for_loop_inv[where I = ?I and body = PVSynth_pack_step])
    show "?I 1 s"
      by (rule exI[of _ "sy_inframe s"]) (simp add: l)
    show "1 \<le> sy_hsize s"
      using h(5) by simp
    show "\<exists>t'. PVSynth_pack_step j t = Some t' \<and> ?I (j + 1) t'"
      if j: "1 \<le> j" "j < sy_hsize s" and I: "?I j t" for j t
    proof -
      from I obtain fr where t: "t = s\<lparr>sy_inframe := fr\<rparr>" and fr: "int (length fr) = sy_size s"
        by blast
      have b: "0 \<le> j" "j < sy_size s" "0 \<le> sy_size s - j" "sy_size s - j < sy_size s"
        using j h(6) by simp_all
      have "PVSynth_pack_step j t
              = Some (s\<lparr>sy_inframe := fr[nat j := sy_real s ! nat j,
                                        nat (sy_size s - j) := sy_imag s ! nat j]\<rparr>)"
        using j b fr l(5,6) by (simp add: PVSynth_pack_step_def t rd_in wr_in)
      moreover have "int (length (fr[nat j := sy_real s ! nat j,
                                     nat (sy_size s - j) := sy_imag s ! nat j])) = sy_size s"
        using fr by simp
      ultimately show ?thesis by blast
    qed
  qed
  then show ?thesis by blast
qed


lemma PVSynth_accum_loop:
  assumes sh: "PVSynth_shape s" and md: "0 \<le> md"
  shows "\<exists>ac. for_loop 0 (sy_size s) (PVSynth_accum_step md) s = Some (s\<lparr>sy_outputAccum := ac\<rparr>) \<and>
           length ac = length (sy_outputAccum s) \<and>
           drop (nat (sy_size s)) ac = drop (nat (sy_size s)) (sy_outputAccum s)"
proof -
  let ?I = "\<lambda>(j::int) t. \<exists>ac. t = s\<lparr>sy_outputAccum := ac\<rparr> \<and>
           length ac = length (sy_outputAccum s) \<and>
           drop (nat (sy_size s)) ac = drop (nat (sy_size s)) (sy_outputAccum s)"
  note c = PVSynth_shape_cfg[OF sh] and l = PVSynth_shape_len[OF sh] and h = PVSynth_hop[OF sh]
  have "\<exists>t'. for_loop 0 (sy_size s) (PVSynth_accum_step md) s = Some t' \<and> ?I (sy_size s) t'"
  proof (rule for_loop_inv[where I = ?I and body = "PVSynth_accum_step md"])
    show "?I 0 s"
      by (rule exI[of _ "sy_outputAccum s"]) simp
    show "0 \<le> sy_size s"
      using c(1) by simp
    show "\<exists>t'. PVSynth_accum_step md j t = Some t' \<and> ?I (j + 1) t'"
      if j: "0 \<le> j" "j < sy_size s" and I: "?I j t" for j t
    proof -
      from I obtain ac where t: "t = s\<lparr>sy_outputAccum := ac\<rparr>"
        and ac: "length ac = length (sy_outputAccum s)"
        and dr: "drop (nat (sy_size s)) ac = drop (nat (sy_size s)) (sy_outputAccum s)"
        by blast
      have r: "c_rem (j + md) (sy_size s) = Some ((j + md) mod sy_size s)"
        using j md c(1) by (intro c_rem_nonneg) simp_all
      have m: "0 \<le> (j + md) mod sy_size s" "(j + md) mod sy_size s < sy_size s"
        using c(1) by simp_all
      have ja: "j < int (length ac)"
        using j h(1) l(8) ac by simp
      let ?ac' = "ac[nat j := ac ! nat j
                    + sy_outframe s ! nat ((j + md) mod sy_size s) * sy_window s ! nat j * sy_ampscl s]"
      have "PVSynth_accum_step md j t = Some (s\<lparr>sy_outputAccum := ?ac'\<rparr>)"
        using j m ja l(3,4) by (simp add: PVSynth_accum_step_def t rd_in wr_in r)
      moreover have "length ?ac' = length (sy_outputAccum s)"
        using ac by simp
      moreover have "drop (nat (sy_size s)) ?ac' = drop (nat (sy_size s)) (sy_outputAccum s)"
        using j dr by (simp add: drop_update_cancel)
      ultimately show ?thesis by blast
    qed
  qed
  then show ?thesis by blast
qed

lemma PVSynth_copy_loop:
  assumes sh: "PVSynth_shape s"
  shows "\<exists>ob. for_loop 0 (sy_hopsize s) PVSynth_copy_step s = Some (s\<lparr>sy_output_buffer := ob\<rparr>) \<and>
           int (length ob) = sy_size s"
proof -
  let ?I = "\<lambda>(j::int) t. \<exists>ob. t = s\<lparr>sy_output_buffer := ob\<rparr> \<and> int (length ob) = sy_size s"
  note c = PVSynth_shape_cfg[OF sh] and l = PVSynth_shape_len[OF sh] and h = PVSynth_hop[OF sh]
  have "\<exists>t'. for_loop 0 (sy_hopsize s) PVSynth_copy_step s = Some t' \<and> ?I (sy_hopsize s) t'"
  proof (rule for_loop_inv[where I = ?I and body = PVSynth_copy_step])
    show "?I 0 s"
      by (rule exI[of _ "sy_output_buffer s"]) (simp add: l)
    show "0 \<le> sy_hopsize s"
      using h(1) by simp
    show "\<exists>t'. PVSynth_copy_step j t = Some t' \<and> ?I (j + 1) t'"
      if j: "0 \<le> j" "j < sy_hopsize s" and I: "?I j t" for j t
    proof -
      from I obtain ob where t: "t = s\<lparr>sy_output_buffer := ob\<rparr>" and ob: "int (length ob) = sy_size s"
        by blast
      have b: "j < sy_size s" "j < int (length (sy_outputAccum s))"
        using j h(2) l(8) c(1) by simp_all
      have "PVSynth_copy_step j t = Some (s\<lparr>sy_output_buffer := ob[nat j := sy_outputAccum s ! nat j]\<rparr>)"
        using j b ob by (simp add: PVSynth_copy_step_def t rd_in wr_in)
      moreover have "int (length (ob[nat j := sy_outputAccum s ! nat j])) = sy_size s"
        using ob by simp
      ultimately show ?thesis by blast
    qed
  qed
  then show ?thesis by blast
qed

lemma PVSynth_shift_loop:
  assumes sh: "PVSynth_shape s"
  shows "\<exists>ac. for_loop 0 (sy_size s) PVSynth_shift_step s = Some (s\<lparr>sy_outputAccum := ac\<rparr>) \<and>
           length ac = length (sy_outputAccum s) \<and>
           drop (nat (sy_size s)) ac = drop (nat (sy_size s)) (sy_outputAccum s) \<and>
           (\<forall>k. 0 \<le> k \<and> k < sy_size s \<longrightarrow> ac ! nat k = sy_outputAccum s ! nat (k + sy_hopsize s))"
proof -
  let ?A = "sy_outputAccum s" and ?hop = "sy_hopsize s"
  let ?I = "\<lambda>(j::int) t. \<exists>ac. t = s\<lparr>sy_outputAccum := ac\<rparr> \<and> length ac = length ?A \<and>
           drop (nat (sy_size s)) ac = drop (nat (sy_size s)) ?A \<and>
           (\<forall>k. 0 \<le> k \<and> k < j \<longrightarrow> ac ! nat k = ?A ! nat (k + ?hop)) \<and>
           (\<forall>k. j \<le> k \<and> k < sy_size s + ?hop \<longrightarrow> ac ! nat k = ?A ! nat k)"
  note c = PVSynth_shape_cfg[OF sh] and l = PVSynth_shape_len[OF sh] and h = PVSynth_hop[OF sh]
  have "\<exists>t'. for_loop 0 (sy_size s) PVSynth_shift_step s = Some t' \<and> ?I (sy_size s) t'"
  proof (rule for_loop_inv[where I = ?I and body = PVSynth_shift_step])
    show "?I 0 s"
      by (rule exI[of _ ?A]) simp
    show "0 \<le> sy_size s"
      using c(1) by simp
    show "\<exists>t'. PVSynth_shift_step j t = Some t' \<and> ?I (j + 1) t'"
      if j: "0 \<le> j" "j < sy_size s" and I: "?I j t" for j t
    proof -
      from I obtain ac where t: "t = s\<lparr>sy_outputAccum := ac\<rparr>"
        and ac: "length ac = length ?A"
        and dr: "drop (nat (sy_size s)) ac = drop (nat (sy_size s)) ?A"
        and lo: "\<forall>k. 0 \<le> k \<and> k < j \<longrightarrow> ac ! nat k = ?A ! nat (k + ?hop)"
        and hi: "\<forall>k. j \<le> k \<and> k < sy_size s + ?hop \<longrightarrow> ac ! nat k = ?A ! nat k"
        by blast
      have b: "0 \<le> j + ?hop" "j + ?hop < int (length ac)" "j < int (length ac)"
        using j h(1) l(8) ac by simp_all
      let ?ac' = "ac[nat j := ac ! nat (j + ?hop)]"
      have st: "PVSynth_shift_step j t = Some (s\<lparr>sy_outputAccum := ?ac'\<rparr>)"
        using j b by (simp add: PVSynth_shift_step_def t rd_in wr_in)
      have rdv: "ac ! nat (j + ?hop) = ?A ! nat (j + ?hop)"
        using hi j h(1) by simp
      have lo': "\<forall>k. 0 \<le> k \<and> k < j + 1 \<longrightarrow> ?ac' ! nat k = ?A ! nat (k + ?hop)"
      proof (intro allI impI)
        fix k assume k: "0 \<le> k \<and> k < j + 1"
        show "?ac' ! nat k = ?A ! nat (k + ?hop)"
        proof (cases "k = j")
          case True
          then show ?thesis using b(3) j rdv by simp
        next
          case False
          then have "nat j \<noteq> nat k" using k j by linarith
          moreover have "0 \<le> k \<and> k < j" using k False by simp
          ultimately show ?thesis using lo by simp
        qed
      qed
      have hi': "\<forall>k. j + 1 \<le> k \<and> k < sy_size s + ?hop \<longrightarrow> ?ac' ! nat k = ?A ! nat k"
      proof (intro allI impI)
        fix k assume k: "j + 1 \<le> k \<and> k < sy_size s + ?hop"
        then have "nat j \<noteq> nat k" using j by linarith
        moreover have "ac ! nat k = ?A ! nat k" using hi k by simp
        ultimately show "?ac' ! nat k = ?A ! nat k" by simp
      qed
      have "length ?ac' = length ?A"
        using ac by simp
      moreover have "drop (nat (sy_size s)) ?ac' = drop (nat (sy_size s)) ?A"
        using j dr by (simp add: drop_update_cancel)
      ultimately have "?I (j + 1) (s\<lparr>sy_outputAccum := ?ac'\<rparr>)"
        using lo' hi' by (intro exI[of _ ?ac'] conjI refl)
      with st show ?thesis by simp
    qed
  qed
  then show ?thesis by blast
qed


lemma drop_eq_nth:
  assumes "drop n xs = drop n ys" and "n \<le> j" and "length xs = length ys" and "j < length xs"
  shows "xs ! j = ys ! j"
proof -
  have "xs ! j = drop n xs ! (j - n)"
    using assms(2,4) by simp
  also have "\<dots> = drop n ys ! (j - n)"
    using assms(1) by simp
  also have "\<dots> = ys ! j"
    using assms(2,3,4) by simp
  finally show ?thesis .
qed

lemma PVSynth_top_zero_nth:
  assumes sh: "PVSynth_shape s" and tz: "PVSynth_top_zero s"
    and k: "sy_size s \<le> k" "k < sy_size s + sy_hopsize s"
  shows "sy_outputAccum s ! nat k = 0"
proof -
  note c = PVSynth_shape_cfg[OF sh] and l = PVSynth_shape_len[OF sh]
  let ?n = "nat (sy_size s)" and ?A = "sy_outputAccum s"
  have b: "?n \<le> nat k" "nat k < length ?A"
    using k c(1) l(8) by linarith+
  from tz have "\<forall>i < length (drop ?n ?A). drop ?n ?A ! i = 0"
    by (simp add: PVSynth_top_zero_def list_all_length)
  moreover have "nat k - ?n < length (drop ?n ?A)"
    using b by simp
  ultimately have "drop ?n ?A ! (nat k - ?n) = 0"
    by blast
  then show ?thesis
    using b by simp
qed

lemma PVSynth_frame_Some:
  assumes sh: "PVSynth_shape s"
    and tm: "table_ok (pv_magn inp) (sy_olaps s) (sy_hsize s)"
    and tf: "table_ok (pv_freq inp) (sy_olaps s) (sy_hsize s)"
  shows "\<exists>s'. PVSynth_frame ifft inp s = Some s' \<and> PVSynth_shape s' \<and>
           sy_size s' = sy_size s \<and> sy_olaps s' = sy_olaps s \<and> sy_bufsize s' = sy_bufsize s \<and>
           sy_hopsize s' = sy_hopsize s \<and> sy_data s' = sy_data s \<and>
           drop (nat (sy_size s)) (sy_outputAccum s') = drop (nat (sy_size s)) (sy_outputAccum s) \<and>
           (PVSynth_top_zero s \<longrightarrow>
              (\<forall>k. sy_size s - sy_hopsize s \<le> k \<and> k < sy_size s \<longrightarrow> sy_outputAccum s' ! nat k = 0))"
proof -
  note h = PVSynth_hop[OF sh] and c = PVSynth_shape_cfg[OF sh] and l = PVSynth_shape_len[OF sh]
  from PVSynth_bins_loop[OF sh tm tf] obtain sp re im where
    b: "for_loop 0 (sy_hsize s) (PVSynth_bin inp) s
          = Some (s\<lparr>sy_sumPhase := sp, sy_real := re, sy_imag := im\<rparr>)"
    and sp: "int (length sp) = sy_hsize s" and re: "int (length re) = sy_hsize s"
    and im: "int (length im) = sy_hsize s"
    by blast
  let ?s1 = "s\<lparr>sy_sumPhase := sp, sy_real := re, sy_imag := im\<rparr>"
  have sh1: "PVSynth_shape ?s1"
    by (rule PVSynth_shape_bins_upd[OF sh sp re im])
  let ?fr0 = "(sy_inframe s)[0 := re ! 0, nat (sy_hsize s) := 0]"
  have u0: "rd re 0 = Some (re ! 0)"
    "wr (sy_inframe s) 0 (re ! 0) = Some ((sy_inframe s)[0 := re ! 0])"
    "wr ((sy_inframe s)[0 := re ! 0]) (sy_hsize s) 0 = Some ?fr0"
    using h(5,6) re l(2) c(1) by (simp_all add: rd_def wr_def)
  let ?s2 = "?s1\<lparr>sy_inframe := ?fr0\<rparr>"
  have sh2: "PVSynth_shape ?s2"
    by (rule PVSynth_shape_inframe[OF sh1]) (simp add: l(2))
  from PVSynth_pack_loop[OF sh2] obtain fr where
    p: "for_loop 1 (sy_hsize ?s2) PVSynth_pack_step ?s2 = Some (?s2\<lparr>sy_inframe := fr\<rparr>)"
    and fr: "int (length fr) = sy_size ?s2"
    by blast
  let ?s3 = "?s2\<lparr>sy_inframe := fr\<rparr>"
  have sh3: "PVSynth_shape ?s3"
    by (rule PVSynth_shape_inframe[OF sh2 fr])
  let ?s4 = "?s3\<lparr>sy_outframe := fft_call ifft (sy_inframe ?s3) (sy_outframe ?s3)\<rparr>"
  have sh4: "PVSynth_shape ?s4"
    by (rule PVSynth_shape_outframe[OF sh3]) (simp add: fft_call_def l(3))
  have md: "0 \<le> sy_hopsize ?s4 * sy_overcount ?s4"
    using h(1) c(7) by simp
  from PVSynth_accum_loop[OF sh4 md] obtain ac1 where
    a: "for_loop 0 (sy_size ?s4) (PVSynth_accum_step (sy_hopsize ?s4 * sy_overcount ?s4)) ?s4
          = Some (?s4\<lparr>sy_outputAccum := ac1\<rparr>)"
    and ac1: "length ac1 = length (sy_outputAccum ?s4)"
    and dr1: "drop (nat (sy_size ?s4)) ac1 = drop (nat (sy_size ?s4)) (sy_outputAccum ?s4)"
    by blast
  let ?s5 = "?s4\<lparr>sy_outputAccum := ac1\<rparr>"
  have sh5: "PVSynth_shape ?s5"
    by (rule PVSynth_shape_outputAccum[OF sh4 ac1])
  from PVSynth_copy_loop[OF sh5] obtain ob where
    cp: "for_loop 0 (sy_hopsize ?s5) PVSynth_copy_step ?s5 = Some (?s5\<lparr>sy_output_buffer := ob\<rparr>)"
    and ob: "int (length ob) = sy_size ?s5"
    by blast
  let ?s6 = "?s5\<lparr>sy_output_buffer := ob\<rparr>"
  have sh6: "PVSynth_shape ?s6"
    by (rule PVSynth_shape_output_buffer[OF sh5 ob])
  from PVSynth_shift_loop[OF sh6] obtain ac2 where
    f: "for_loop 0 (sy_size ?s6) PVSynth_shift_step ?s6 = Some (?s6\<lparr>sy_outputAccum := ac2\<rparr>)"
    and ac2: "length ac2 = length (sy_outputAccum ?s6)"
    and dr2: "drop (nat (sy_size ?s6)) ac2 = drop (nat (sy_size ?s6)) (sy_outputAccum ?s6)"
    and mv: "\<forall>k. 0 \<le> k \<and> k < sy_size ?s6 \<longrightarrow> ac2 ! nat k = sy_outputAccum ?s6 ! nat (k + sy_hopsize ?s6)"
    by blast
  let ?s7 = "?s6\<lparr>sy_outputAccum := ac2\<rparr>"
  have sh7: "PVSynth_shape ?s7"
    by (rule PVSynth_shape_outputAccum[OF sh6 ac2])
  let ?oc = "if sy_overcount ?s7 + 1 \<ge> sy_olaps ?s7 then 0 else sy_overcount ?s7 + 1"
  let ?s8 = "?s7\<lparr>sy_overcount := ?oc\<rparr>"
  have "0 \<le> ?oc" "?oc < sy_olaps ?s7"
    using c(2,7,8) by simp_all
  then have sh8: "PVSynth_shape ?s8"
    by (rule PVSynth_shape_overcount[OF sh7])
  have p': "for_loop 1 (sy_hsize s) PVSynth_pack_step ?s2 = Some ?s3"
    using p by simp
  have a': "for_loop 0 (sy_size s) (PVSynth_accum_step (sy_hopsize s * sy_overcount s)) ?s4 = Some ?s5"
    using a by simp
  have cp': "for_loop 0 (sy_hopsize s) PVSynth_copy_step ?s5 = Some ?s6"
    using cp by simp
  have f': "for_loop 0 (sy_size s) PVSynth_shift_step ?s6 = Some ?s7"
    using f by simp
  have r: "PVSynth_frame ifft inp s = Some ?s8"
    unfolding PVSynth_frame_def Let_def
    using b u0 p' a' cp' f' by simp
  have len1: "length ac1 = length (sy_outputAccum s)"
    using ac1 by simp
  have d1: "drop (nat (sy_size s)) ac1 = drop (nat (sy_size s)) (sy_outputAccum s)"
    using dr1 by simp
  have d2: "drop (nat (sy_size s)) ac2 = drop (nat (sy_size s)) (sy_outputAccum s)"
    using dr2 d1 by simp
  have tail: "\<forall>k. sy_size s - sy_hopsize s \<le> k \<and> k < sy_size s \<longrightarrow> ac2 ! nat k = 0"
    if tz: "PVSynth_top_zero s"
  proof (intro allI impI)
    fix k assume k: "sy_size s - sy_hopsize s \<le> k \<and> k < sy_size s"
    then have k0: "0 \<le> k"
      using h(2) by simp
    have "ac2 ! nat k = ac1 ! nat (k + sy_hopsize s)"
      using mv k k0 by simp
    also have "\<dots> = sy_outputAccum s ! nat (k + sy_hopsize s)"
    proof (rule drop_eq_nth[OF d1 _ len1])
      show "nat (sy_size s) \<le> nat (k + sy_hopsize s)"
        using k by linarith
      show "nat (k + sy_hopsize s) < length ac1"
        using k k0 h(1) l(8) len1 by linarith
    qed
    also have "\<dots> = 0"
      using k by (intro PVSynth_top_zero_nth[OF sh tz]) simp_all
    finally show "ac2 ! nat k = 0" .
  qed
  show ?thesis
    using sh8 d2 tail by (intro exI[of _ ?s8]) (simp add: r)
qed

lemma PVSynth_top_zero_cong:
  "sy_size s' = sy_size s \<Longrightarrow>
   drop (nat (sy_size s)) (sy_outputAccum s') = drop (nat (sy_size s)) (sy_outputAccum s) \<Longrightarrow>
   PVSynth_top_zero s \<Longrightarrow> PVSynth_top_zero s'"
  by (simp add: PVSynth_top_zero_def)

lemma PVSynth_sample_Some:
  assumes sh: "PVSynth_shape s"
    and tm: "table_ok (pv_magn inp) (sy_olaps s) (sy_hsize s)"
    and tf: "table_ok (pv_freq inp) (sy_olaps s) (sy_hsize s)"
    and i: "0 \<le> i" "i < sy_bufsize s" "i < int (length (pv_count inp))"
    and cb: "sy_inputLatency s \<le> pv_count inp ! nat i" "pv_count inp ! nat i \<le> sy_size s - 1"
  shows "\<exists>s'. PVSynth_sample ifft inp i s = Some s' \<and> PVSynth_shape s' \<and>
           sy_size s' = sy_size s \<and> sy_olaps s' = sy_olaps s \<and> sy_bufsize s' = sy_bufsize s \<and>
           drop (nat (sy_size s)) (sy_outputAccum s') = drop (nat (sy_size s)) (sy_outputAccum s)"
proof -
  note h = PVSynth_hop[OF sh] and c = PVSynth_shape_cfg[OF sh] and l = PVSynth_shape_len[OF sh]
  let ?c = "pv_count inp ! nat i"
  let ?x = "sy_output_buffer s ! nat (?c - sy_inputLatency s)"
  let ?s1 = "s\<lparr>sy_data := (sy_data s)[nat i := ?x]\<rparr>"
  have a: "rd (pv_count inp) i = Some ?c"
    "rd (sy_output_buffer s) (?c - sy_inputLatency s) = Some ?x"
    "wr (sy_data s) i ?x = Some ((sy_data s)[nat i := ?x])"
    using i cb h(3) l(1) c(10) by (simp_all add: rd_def wr_def)
  have sh1: "PVSynth_shape ?s1"
    by (rule PVSynth_shape_data[OF sh]) simp
  show ?thesis
  proof (cases "?c \<ge> sy_size s - 1")
    case True
    have tm1: "table_ok (pv_magn inp) (sy_olaps ?s1) (sy_hsize ?s1)"
      and tf1: "table_ok (pv_freq inp) (sy_olaps ?s1) (sy_hsize ?s1)"
      using tm tf by simp_all
    from PVSynth_frame_Some[OF sh1 tm1 tf1, of ifft] obtain s' where
      fr: "PVSynth_frame ifft inp ?s1 = Some s'" and sh': "PVSynth_shape s'"
      and e: "sy_size s' = sy_size ?s1" "sy_olaps s' = sy_olaps ?s1" "sy_bufsize s' = sy_bufsize ?s1"
      and d: "drop (nat (sy_size ?s1)) (sy_outputAccum s') = drop (nat (sy_size ?s1)) (sy_outputAccum ?s1)"
      by blast
    have "PVSynth_sample ifft inp i s = Some s'"
      using a True fr by (simp add: PVSynth_sample_def)
    then show ?thesis
      using sh' e d by simp
  next
    case False
    have "PVSynth_sample ifft inp i s = Some ?s1"
      using a False by (simp add: PVSynth_sample_def)
    then show ?thesis
      using sh1 by simp
  qed
qed

lemma PVSynth_process_Some:
  assumes sh: "PVSynth_shape S" and bus: "PVStream_ok inp (sy_bufsize S)"
  shows "\<exists>S'. PVSynth_process gw ifft inp S = Some S' \<and> PVSynth_shape S' \<and>
           sy_size S' = pv_fftsize inp \<and> sy_olaps S' = pv_olaps inp \<and>
           sy_bufsize S' = sy_bufsize S \<and>
           (PVSynth_top_zero S \<longrightarrow> PVSynth_top_zero S')"
proof -
  from bus have cfg: "2 \<le> pv_fftsize inp" "0 < pv_olaps inp" "pv_olaps inp \<le> pv_fftsize inp"
    and tm: "table_ok (pv_magn inp) (pv_olaps inp) (pv_fftsize inp div 2)"
    and tf: "table_ok (pv_freq inp) (pv_olaps inp) (pv_fftsize inp div 2)"
    and cl: "sy_bufsize S \<le> int (length (pv_count inp))"
    and cr: "list_all (\<lambda>c. pv_fftsize inp - pv_fftsize inp div pv_olaps inp \<le> c \<and> c \<le> pv_fftsize inp - 1)
               (take (nat (sy_bufsize S)) (pv_count inp))"
    by (simp_all add: PVStream_ok_def)
  from PVSynth_adapt_Some[OF sh cfg, of gw] obtain S1 where
    ad: "PVSynth_adapt gw inp S = Some S1" and sh1: "PVSynth_shape S1"
    and e1: "sy_size S1 = pv_fftsize inp" "sy_olaps S1 = pv_olaps inp" "sy_bufsize S1 = sy_bufsize S"
    and tz1: "PVSynth_top_zero S \<longrightarrow> PVSynth_top_zero S1"
    by blast
  let ?I = "\<lambda>(j::int) t. PVSynth_shape t \<and> sy_size t = pv_fftsize inp \<and> sy_olaps t = pv_olaps inp \<and>
              sy_bufsize t = sy_bufsize S \<and> (PVSynth_top_zero S \<longrightarrow> PVSynth_top_zero t)"
  have "\<exists>t'. for_loop 0 (sy_bufsize S1) (PVSynth_sample ifft inp) S1 = Some t' \<and> ?I (sy_bufsize S1) t'"
  proof (rule for_loop_inv[where I = ?I and body = "PVSynth_sample ifft inp"])
    show "?I 0 S1"
      using sh1 e1 tz1 by simp
    show "0 \<le> sy_bufsize S1"
      using PVSynth_shape_cfg(9)[OF sh1] .
    show "\<exists>t'. PVSynth_sample ifft inp j t = Some t' \<and> ?I (j + 1) t'"
      if j: "0 \<le> j" "j < sy_bufsize S1" and I: "?I j t" for j t
    proof -
      from I have sht: "PVSynth_shape t" and et: "sy_size t = pv_fftsize inp"
        "sy_olaps t = pv_olaps inp" "sy_bufsize t = sy_bufsize S"
        and tzt: "PVSynth_top_zero S \<longrightarrow> PVSynth_top_zero t"
        by simp_all
      note ct = PVSynth_shape_cfg[OF sht]
      have hs: "sy_hsize t = pv_fftsize inp div 2"
        using ct(4) et by simp
      have lat: "sy_inputLatency t = pv_fftsize inp - pv_fftsize inp div pv_olaps inp"
        using ct(5,6) et by simp
      have tmt: "table_ok (pv_magn inp) (sy_olaps t) (sy_hsize t)"
        and tft: "table_ok (pv_freq inp) (sy_olaps t) (sy_hsize t)"
        using tm tf hs et by simp_all
      have jb: "j < sy_bufsize t" "j < int (length (pv_count inp))"
        using j e1 et cl by simp_all
      have jn: "nat j < length (take (nat (sy_bufsize S)) (pv_count inp))"
        using j e1 cl by simp
      from cr have "\<forall>n < length (take (nat (sy_bufsize S)) (pv_count inp)).
          pv_fftsize inp - pv_fftsize inp div pv_olaps inp \<le> take (nat (sy_bufsize S)) (pv_count inp) ! n \<and>
          take (nat (sy_bufsize S)) (pv_count inp) ! n \<le> pv_fftsize inp - 1"
        unfolding list_all_length .
      from this[rule_format, OF jn]
      have cb: "sy_inputLatency t \<le> pv_count inp ! nat j" "pv_count inp ! nat j \<le> sy_size t - 1"
        using jn lat et by simp_all
      from PVSynth_sample_Some[OF sht tmt tft j(1) jb cb, of ifft] obtain t' where
        r: "PVSynth_sample ifft inp j t = Some t'" and sh': "PVSynth_shape t'"
        and e': "sy_size t' = sy_size t" "sy_olaps t' = sy_olaps t" "sy_bufsize t' = sy_bufsize t"
        and d: "drop (nat (sy_size t)) (sy_outputAccum t') = drop (nat (sy_size t)) (sy_outputAccum t)"
        by blast
      have "PVSynth_top_zero S \<longrightarrow> PVSynth_top_zero t'"
        using tzt PVSynth_top_zero_cong[OF e'(1) d] by blast
      then show ?thesis
        using r sh' e' et by simp
    qed
  qed
  then obtain S' where "for_loop 0 (sy_bufsize S1) (PVSynth_sample ifft inp) S1 = Some S'"
    and "?I (sy_bufsize S1) S'"
    by blast
  then show ?thesis
    using ad by (intro exI[of _ S']) (simp add: PVSynth_process_def)
qed


text \<open>
  Claim C8. The accumulator \<^verbatim>\<open>outputAccum\<close> of the synthesizer has \<open>size + hopsize\<close> cells,
  and its top \<open>hopsize\<close> cells, at the indices \<open>size\<close> to \<open>size + hopsize - 1\<close>, are zero
  after \<^verbatim>\<open>PVSynth_realloc_memories\<close> and still zero after every \<^verbatim>\<open>PVSynth_process\<close>: the
  accumulate loop and the shift loop leave the cells from \<open>size\<close> on as they were, the copy
  loop leaves the whole accumulator as it was, and the shift moves cell \<open>k + hopsize\<close> to
  cell \<open>k\<close> for every \<open>k\<close> below \<open>size\<close>, so that after a frame the cells \<open>size - hopsize\<close> to
  \<open>size - 1\<close> are zero. The first conjunct is about a reconfiguration with
  \<open>2 \<le> size\<close> and \<open>1 \<le> olaps \<le> size\<close>; the others about a synthesizer \<open>T\<close> in a state that
  the reconfiguration establishes and the processing keeps (\<open>PVSynth_shape\<close>), fed by a bus
  of matching tables whose \<open>count\<close> stays between the input latency and \<open>size - 1\<close>
  (\<open>PVStream_ok\<close>). Every run is shown to return.
\<close>

theorem C8_accumulator_top_zero:
  "(2 \<le> sy_size S \<and> 0 < sy_olaps S \<and> sy_olaps S \<le> sy_size S \<and>
      0 \<le> sy_bufsize S \<and> int (length (sy_data S)) = sy_bufsize S \<longrightarrow>
      (\<exists>S'. PVSynth_realloc_memories gw S = Some S' \<and> PVSynth_shape S' \<and>
         sy_size S' = sy_size S \<and> sy_olaps S' = sy_olaps S \<and> sy_bufsize S' = sy_bufsize S \<and>
         int (length (sy_outputAccum S')) = sy_size S' + sy_hopsize S' \<and>
         PVSynth_top_zero S')) \<and>
   (PVSynth_shape T \<and> PVSynth_top_zero T \<and> PVStream_ok inp (sy_bufsize T) \<longrightarrow>
      (\<exists>T'. PVSynth_process gw ifft inp T = Some T' \<and> PVSynth_shape T' \<and>
         int (length (sy_outputAccum T')) = sy_size T' + sy_hopsize T' \<and>
         PVSynth_top_zero T')) \<and>
   (PVSynth_shape T \<and> 0 \<le> md \<longrightarrow>
      (\<exists>ac. for_loop 0 (sy_size T) (PVSynth_accum_step md) T = Some (T\<lparr>sy_outputAccum := ac\<rparr>) \<and>
         length ac = length (sy_outputAccum T) \<and>
         drop (nat (sy_size T)) ac = drop (nat (sy_size T)) (sy_outputAccum T))) \<and>
   (PVSynth_shape T \<longrightarrow>
      (\<exists>ob. for_loop 0 (sy_hopsize T) PVSynth_copy_step T = Some (T\<lparr>sy_output_buffer := ob\<rparr>))) \<and>
   (PVSynth_shape T \<longrightarrow>
      (\<exists>ac. for_loop 0 (sy_size T) PVSynth_shift_step T = Some (T\<lparr>sy_outputAccum := ac\<rparr>) \<and>
         length ac = length (sy_outputAccum T) \<and>
         drop (nat (sy_size T)) ac = drop (nat (sy_size T)) (sy_outputAccum T) \<and>
         (\<forall>k. 0 \<le> k \<and> k < sy_size T \<longrightarrow> ac ! nat k = sy_outputAccum T ! nat (k + sy_hopsize T)))) \<and>
   (PVSynth_shape T \<and> PVSynth_top_zero T \<and>
      table_ok (pv_magn inp) (sy_olaps T) (sy_hsize T) \<and>
      table_ok (pv_freq inp) (sy_olaps T) (sy_hsize T) \<longrightarrow>
      (\<exists>T'. PVSynth_frame ifft inp T = Some T' \<and> PVSynth_shape T' \<and>
         sy_size T' = sy_size T \<and> sy_hopsize T' = sy_hopsize T \<and>
         PVSynth_top_zero T' \<and>
         (\<forall>k. sy_size T - sy_hopsize T \<le> k \<and> k < sy_size T \<longrightarrow> sy_outputAccum T' ! nat k = 0)))"
proof (intro conjI impI)
  assume a: "2 \<le> sy_size S \<and> 0 < sy_olaps S \<and> sy_olaps S \<le> sy_size S \<and>
      0 \<le> sy_bufsize S \<and> int (length (sy_data S)) = sy_bufsize S"
  then have cfg: "2 \<le> sy_size S" "0 < sy_olaps S" "sy_olaps S \<le> sy_size S"
    and buf: "0 \<le> sy_bufsize S" "int (length (sy_data S)) = sy_bufsize S"
    by simp_all
  from PVSynth_realloc_shape[OF cfg buf, of gw] obtain S' where
    r: "PVSynth_realloc_memories gw S = Some S'" and sh: "PVSynth_shape S'"
    and tz: "PVSynth_top_zero S'"
    and e: "sy_size S' = sy_size S" "sy_olaps S' = sy_olaps S" "sy_bufsize S' = sy_bufsize S"
    by blast
  have "int (length (sy_outputAccum S')) = sy_size S' + sy_hopsize S'"
    by (rule PVSynth_shape_len(8)[OF sh])
  with r sh tz e
  show "\<exists>S'. PVSynth_realloc_memories gw S = Some S' \<and> PVSynth_shape S' \<and>
         sy_size S' = sy_size S \<and> sy_olaps S' = sy_olaps S \<and> sy_bufsize S' = sy_bufsize S \<and>
         int (length (sy_outputAccum S')) = sy_size S' + sy_hopsize S' \<and>
         PVSynth_top_zero S'"
    by blast
next
  assume a: "PVSynth_shape T \<and> PVSynth_top_zero T \<and> PVStream_ok inp (sy_bufsize T)"
  then have sh: "PVSynth_shape T" and tz: "PVSynth_top_zero T"
    and bus: "PVStream_ok inp (sy_bufsize T)"
    by simp_all
  from PVSynth_process_Some[OF sh bus, of gw ifft] tz obtain T' where
    r: "PVSynth_process gw ifft inp T = Some T'" and sh': "PVSynth_shape T'"
    and tz': "PVSynth_top_zero T'"
    by blast
  have "int (length (sy_outputAccum T')) = sy_size T' + sy_hopsize T'"
    by (rule PVSynth_shape_len(8)[OF sh'])
  with r sh' tz'
  show "\<exists>T'. PVSynth_process gw ifft inp T = Some T' \<and> PVSynth_shape T' \<and>
         int (length (sy_outputAccum T')) = sy_size T' + sy_hopsize T' \<and>
         PVSynth_top_zero T'"
    by blast
next
  assume "PVSynth_shape T \<and> 0 \<le> md"
  then have sh: "PVSynth_shape T" and md: "0 \<le> md"
    by simp_all
  show "\<exists>ac. for_loop 0 (sy_size T) (PVSynth_accum_step md) T = Some (T\<lparr>sy_outputAccum := ac\<rparr>) \<and>
         length ac = length (sy_outputAccum T) \<and>
         drop (nat (sy_size T)) ac = drop (nat (sy_size T)) (sy_outputAccum T)"
    by (rule PVSynth_accum_loop[OF sh md])
next
  assume sh: "PVSynth_shape T"
  from PVSynth_copy_loop[OF sh]
  show "\<exists>ob. for_loop 0 (sy_hopsize T) PVSynth_copy_step T = Some (T\<lparr>sy_output_buffer := ob\<rparr>)"
    by blast
next
  assume sh: "PVSynth_shape T"
  show "\<exists>ac. for_loop 0 (sy_size T) PVSynth_shift_step T = Some (T\<lparr>sy_outputAccum := ac\<rparr>) \<and>
         length ac = length (sy_outputAccum T) \<and>
         drop (nat (sy_size T)) ac = drop (nat (sy_size T)) (sy_outputAccum T) \<and>
         (\<forall>k. 0 \<le> k \<and> k < sy_size T \<longrightarrow> ac ! nat k = sy_outputAccum T ! nat (k + sy_hopsize T))"
    by (rule PVSynth_shift_loop[OF sh])
next
  assume a: "PVSynth_shape T \<and> PVSynth_top_zero T \<and>
      table_ok (pv_magn inp) (sy_olaps T) (sy_hsize T) \<and>
      table_ok (pv_freq inp) (sy_olaps T) (sy_hsize T)"
  then have sh: "PVSynth_shape T" and tz: "PVSynth_top_zero T"
    and tm: "table_ok (pv_magn inp) (sy_olaps T) (sy_hsize T)"
    and tf: "table_ok (pv_freq inp) (sy_olaps T) (sy_hsize T)"
    by simp_all
  from PVSynth_frame_Some[OF sh tm tf, of ifft] tz obtain T' where
    r: "PVSynth_frame ifft inp T = Some T'" and sh': "PVSynth_shape T'"
    and e: "sy_size T' = sy_size T" "sy_hopsize T' = sy_hopsize T"
    and d: "drop (nat (sy_size T)) (sy_outputAccum T') = drop (nat (sy_size T)) (sy_outputAccum T)"
    and z: "\<forall>k. sy_size T - sy_hopsize T \<le> k \<and> k < sy_size T \<longrightarrow> sy_outputAccum T' ! nat k = 0"
    by blast
  have tz': "PVSynth_top_zero T'"
    by (rule PVSynth_top_zero_cong[OF e(1) d tz])
  from r sh' e tz' z
  show "\<exists>T'. PVSynth_frame ifft inp T = Some T' \<and> PVSynth_shape T' \<and>
         sy_size T' = sy_size T \<and> sy_hopsize T' = sy_hopsize T \<and>
         PVSynth_top_zero T' \<and>
         (\<forall>k. sy_size T - sy_hopsize T \<le> k \<and> k < sy_size T \<longrightarrow> sy_outputAccum T' ! nat k = 0)"
    by blast
qed

theorem C8_accumulator_top_zero_witness:
  "2 \<le> sy_size ex_synth0 \<and> 0 < sy_olaps ex_synth0 \<and> sy_olaps ex_synth0 \<le> sy_size ex_synth0 \<and>
   0 \<le> sy_bufsize ex_synth0 \<and> int (length (sy_data ex_synth0)) = sy_bufsize ex_synth0 \<and>
   (\<exists>S'. PVSynth_realloc_memories ex_gw ex_synth0 = Some S' \<and>
      PVSynth_shape S' \<and> PVSynth_top_zero S' \<and> PVStream_ok ex_bus (sy_bufsize S') \<and>
      table_ok (pv_magn ex_bus) (sy_olaps S') (sy_hsize S') \<and>
      table_ok (pv_freq ex_bus) (sy_olaps S') (sy_hsize S') \<and>
      sy_hopsize S' = 2 \<and> length (sy_outputAccum S') = 6 \<and>
      (\<exists>T'. PVSynth_process ex_gw ex_fft ex_bus S' = Some T' \<and> PVSynth_top_zero T' \<and>
         int (length (sy_outputAccum T')) = sy_size T' + sy_hopsize T') \<and>
      (\<exists>ac. for_loop 0 (sy_size S') (PVSynth_accum_step 2) S' = Some (S'\<lparr>sy_outputAccum := ac\<rparr>) \<and>
         drop 4 ac = drop 4 (sy_outputAccum S')) \<and>
      (\<exists>ob. for_loop 0 (sy_hopsize S') PVSynth_copy_step S' = Some (S'\<lparr>sy_output_buffer := ob\<rparr>)) \<and>
      (\<exists>ac. for_loop 0 (sy_size S') PVSynth_shift_step S' = Some (S'\<lparr>sy_outputAccum := ac\<rparr>) \<and>
         drop 4 ac = drop 4 (sy_outputAccum S') \<and> ac ! 3 = sy_outputAccum S' ! 5) \<and>
      (\<exists>T'. PVSynth_frame ex_fft ex_bus S' = Some T' \<and> PVSynth_top_zero T' \<and>
         sy_outputAccum T' ! 2 = 0 \<and> sy_outputAccum T' ! 3 = 0))"
proof -
  have h: "2 \<le> sy_size ex_synth0 \<and> 0 < sy_olaps ex_synth0 \<and> sy_olaps ex_synth0 \<le> sy_size ex_synth0 \<and>
      0 \<le> sy_bufsize ex_synth0 \<and> int (length (sy_data ex_synth0)) = sy_bufsize ex_synth0"
    by (simp add: ex_synth0_def)
  from C8_accumulator_top_zero[where S = ex_synth0 and gw = ex_gw] h obtain S' where
    r: "PVSynth_realloc_memories ex_gw ex_synth0 = Some S'" and sh: "PVSynth_shape S'"
    and e: "sy_size S' = sy_size ex_synth0" "sy_olaps S' = sy_olaps ex_synth0"
      "sy_bufsize S' = sy_bufsize ex_synth0"
    and len: "int (length (sy_outputAccum S')) = sy_size S' + sy_hopsize S'"
    and tz: "PVSynth_top_zero S'"
    by blast
  have v: "sy_size S' = 4" "sy_olaps S' = 2" "sy_bufsize S' = 2"
    using e by (simp_all add: ex_synth0_def)
  have "sy_size S' div 2 = sy_hsize S'" "sy_size S' div sy_olaps S' = sy_hopsize S'"
    by (rule PVSynth_shape_cfg[OF sh])+
  then have d: "sy_hsize S' = 2" "sy_hopsize S' = 2"
    unfolding v by simp_all
  have len6: "length (sy_outputAccum S') = 6"
    using len v d by simp
  have bus: "PVStream_ok ex_bus (sy_bufsize S')"
    unfolding v by (simp add: PVStream_ok_def ex_bus_def table_ok_def)
  have tm: "table_ok (pv_magn ex_bus) (sy_olaps S') (sy_hsize S')"
    and tf: "table_ok (pv_freq ex_bus) (sy_olaps S') (sy_hsize S')"
    unfolding v d by (simp_all add: ex_bus_def table_ok_def)
  note t = C8_accumulator_top_zero[where T = S' and inp = ex_bus and gw = ex_gw and ifft = ex_fft
      and md = 2]
  from t sh tz bus obtain T' where
    p: "PVSynth_process ex_gw ex_fft ex_bus S' = Some T'" "PVSynth_top_zero T'"
      "int (length (sy_outputAccum T')) = sy_size T' + sy_hopsize T'"
    by blast
  from t sh obtain ac where
    a: "for_loop 0 (sy_size S') (PVSynth_accum_step 2) S' = Some (S'\<lparr>sy_outputAccum := ac\<rparr>)"
      "drop (nat (sy_size S')) ac = drop (nat (sy_size S')) (sy_outputAccum S')"
    by force
  from t sh obtain ob where
    c: "for_loop 0 (sy_hopsize S') PVSynth_copy_step S' = Some (S'\<lparr>sy_output_buffer := ob\<rparr>)"
    by blast
  from t sh obtain ac' where
    f: "for_loop 0 (sy_size S') PVSynth_shift_step S' = Some (S'\<lparr>sy_outputAccum := ac'\<rparr>)"
      "drop (nat (sy_size S')) ac' = drop (nat (sy_size S')) (sy_outputAccum S')"
      "\<forall>k. 0 \<le> k \<and> k < sy_size S' \<longrightarrow> ac' ! nat k = sy_outputAccum S' ! nat (k + sy_hopsize S')"
    by blast
  from f(3)[rule_format, of 3] have f3: "ac' ! 3 = sy_outputAccum S' ! 5"
    unfolding v d by simp
  from t sh tz tm tf obtain F where
    fr: "PVSynth_frame ex_fft ex_bus S' = Some F" "PVSynth_top_zero F"
      "\<forall>k. sy_size S' - sy_hopsize S' \<le> k \<and> k < sy_size S' \<longrightarrow> sy_outputAccum F ! nat k = 0"
    by blast
  from fr(3)[rule_format, of 2] fr(3)[rule_format, of 3]
  have z: "sy_outputAccum F ! 2 = 0" "sy_outputAccum F ! 3 = 0"
    unfolding v d by simp_all
  have a4: "drop 4 ac = drop 4 (sy_outputAccum S')" and f4: "drop 4 ac' = drop 4 (sy_outputAccum S')"
    using a(2) f(2) unfolding v by simp_all
  show ?thesis
    using h r sh tz bus tm tf d(2) len6 p a(1) a4 c f(1) f4 f3 fr(1,2) z by blast
qed

end
